theory Spec2Isabelle
  imports Complex_Main "HOL-Library.AList" "HOL-Library.Sublist"
begin

section \<open>Strings and paths\<close>

text \<open>
  Python strings are modelled as \<open>string\<close>; only ASCII letters change under
  \<open>str.lower()\<close> here. A \<open>pathlib.Path\<close> is modelled as the list of its components
  below the root, so that \<open>parent\<close> drops the last component, \<open>name\<close> is the last
  component, and \<open>folder / s\<close> appends the single component \<open>s\<close>. The root is the
  empty list; every other path has a non-empty last component, and category names are
  single components.
\<close>

definition lower_char :: "char \<Rightarrow> char" where
  "lower_char c =
     (case map_of (zip ''ABCDEFGHIJKLMNOPQRSTUVWXYZ'' ''abcdefghijklmnopqrstuvwxyz'') c of
        Some l \<Rightarrow> l
      | None \<Rightarrow> c)"

definition lower :: "string \<Rightarrow> string" where
  "lower s = map lower_char s"

text \<open>The ASCII letters, as \<open>string.ascii_uppercase\<close> and \<open>string.ascii_lowercase\<close> list them.\<close>

definition ascii_uppercase :: string where
  "ascii_uppercase = ''ABCDEFGHIJKLMNOPQRSTUVWXYZ''"

definition ascii_lowercase :: string where
  "ascii_lowercase = ''abcdefghijklmnopqrstuvwxyz''"

type_synonym path = "string list"

definition parent :: "path \<Rightarrow> path" where
  "parent p = butlast p"

definition name :: "path \<Rightarrow> string" where
  "name p = (if p = [] then [] else last p)"

definition startswith_dot :: "string \<Rightarrow> bool" where
  "startswith_dot s = (case s of [] \<Rightarrow> False | c # _ \<Rightarrow> c = CHR ''.'')"

text \<open>\<open>str.rfind\<close>: index of the last occurrence, \<open>-1\<close> when there is none.\<close>

definition rfind :: "string \<Rightarrow> char \<Rightarrow> int" where
  "rfind s c =
     (if c \<in> set s
      then int (length s) - 1 - int (length (takeWhile (\<lambda>x. x \<noteq> c) (rev s)))
      else - 1)"

text \<open>
  \<open>PurePath.suffix\<close> and \<open>PurePath.stem\<close>: with \<open>i = name.rfind('.')\<close>, the suffix is
  \<open>name[i:]\<close> and the stem \<open>name[:i]\<close> when \<open>0 < i < len(name) - 1\<close>; otherwise the
  suffix is empty and the stem is the whole name.
\<close>

definition suffix_of :: "path \<Rightarrow> string" where
  "suffix_of p =
     (let n = name p; i = rfind n CHR ''.''
      in if 0 < i \<and> i < int (length n) - 1 then drop (nat i) n else [])"

definition stem_of :: "path \<Rightarrow> string" where
  "stem_of p =
     (let n = name p; i = rfind n CHR ''.''
      in if 0 < i \<and> i < int (length n) - 1 then take (nat i) n else n)"

text \<open>Decimal rendering of the counter in the f-string \<open>f"{stem}_{counter}{ext}"\<close>.\<close>

definition digit :: "nat \<Rightarrow> char" where
  "digit d = ''0123456789'' ! d"

fun str_nat :: "nat \<Rightarrow> string" where
  "str_nat n = (if n < 10 then [digit n] else str_nat (n div 10) @ [digit (n mod 10)])"

declare str_nat.simps [simp del]

section \<open>Extension classifier\<close>

text \<open>
  \<open>build_extension_map\<close>: the categories dictionary is an association list in
  iteration order; the result dictionary is only ever read with \<open>.get\<close>, so it is a map.
\<close>

definition build_extension_map :: "(string \<times> string list) list \<Rightarrow> (string \<rightharpoonup> string)" where
  "build_extension_map categories =
     fold (\<lambda>(category, extensions) ext_map.
             fold (\<lambda>ext m. m(lower ext \<mapsto> category)) extensions ext_map)
          categories Map.empty"

section \<open>File system\<close>

text \<open>
  The state of the disk: finitely many paths, each a regular file with its content or
  a directory. The association list is read through \<open>lookup\<close>; \<open>Path.exists\<close> and
  \<open>Path.is_dir\<close> are \<open>exists\<close> and \<open>is_dir\<close>. Symbolic links and permissions are not
  modelled. The errors are the exceptions that the modelled calls raise;
  \<open>ShutilError\<close> is \<open>shutil.Error\<close>.
\<close>

datatype node = File string | Dir

type_synonym fs = "(path \<times> node) list"

datatype error =
  FileExistsError | FileNotFoundError | NotADirectoryError | IsADirectoryError | ShutilError

definition lookup :: "fs \<Rightarrow> path \<Rightarrow> node option" where
  "lookup f p = map_of f p"

definition exists :: "fs \<Rightarrow> path \<Rightarrow> bool" where
  "exists f p = (lookup f p \<noteq> None)"

definition is_dir :: "fs \<Rightarrow> path \<Rightarrow> bool" where
  "is_dir f p = (lookup f p = Some Dir)"

section \<open>Events and the download handler\<close>

text \<open>
  A file system event carries its is-directory flag and its path. The handler holds
  the fields of \<open>DownloadHandler\<close>: \<open>pending\<close> is a Python dictionary, kept as an
  association list in insertion order (assignment to an existing key keeps its place,
  as \<open>AList.update\<close> does); \<open>on_file_moved\<close> says whether a callback is registered.
  The readings of \<open>time.time()\<close> and the debounce window are real numbers, and each
  operation takes the reading \<open>now\<close> it makes as an argument.
\<close>

record event =
  is_directory :: bool
  src_path :: path

record handler =
  watch_folder :: path
  ext_map :: "string \<rightharpoonup> string"
  debounce :: real
  on_file_moved :: bool
  pending :: "(path \<times> real) list"

definition on_created :: "handler \<Rightarrow> event \<Rightarrow> real \<Rightarrow> handler" where
  "on_created h ev now =
     (if is_directory ev then h
      else let path = src_path ev in
        if parent path \<noteq> watch_folder h then h
        else if startswith_dot (name path) then h
        else h\<lparr>pending := AList.update path now (pending h)\<rparr>)"

definition on_modified :: "handler \<Rightarrow> event \<Rightarrow> real \<Rightarrow> handler" where
  "on_modified h ev now =
     (if is_directory ev then h
      else let path = src_path ev in
        if path \<in> fst ` set (pending h)
        then h\<lparr>pending := AList.update path now (pending h)\<rparr>
        else h)"


section \<open>File system operations\<close>

text \<open>
  \<open>Path.mkdir(exist_ok=True)\<close> (with \<open>parents=False\<close>): an existing directory is
  accepted, an existing non-directory raises \<open>FileExistsError\<close>, a missing parent
  raises \<open>FileNotFoundError\<close>.
\<close>

definition mkdir_exist_ok :: "fs \<Rightarrow> path \<Rightarrow> error + fs" where
  "mkdir_exist_ok f p =
     (case lookup f p of
        Some Dir \<Rightarrow> Inr f
      | Some (File c) \<Rightarrow> Inl FileExistsError
      | None \<Rightarrow>
          (case lookup f (parent p) of
             Some Dir \<Rightarrow> Inr (AList.update p Dir f)
           | Some (File c) \<Rightarrow> Inl NotADirectoryError
           | None \<Rightarrow> Inl FileNotFoundError))"

definition rename_tree :: "fs \<Rightarrow> path \<Rightarrow> path \<Rightarrow> fs" where
  "rename_tree f src dst =
     map (\<lambda>(p, n). (if prefix src p then dst @ drop (length src) p else p, n)) f"

text \<open>
  \<open>os.rename\<close> as \<open>shutil.move\<close> uses it, together with the outcome of the fallback
  of \<open>shutil.move\<close> when the rename fails: a regular file replaces an existing regular
  file; a directory moves with everything below it and cannot be moved into itself.
  The program calls \<open>shutil.move\<close> only with a destination it has just found absent,
  inside a folder it has just made sure of; the other cases give the error of the
  failing system call.
\<close>

definition os_rename :: "fs \<Rightarrow> path \<Rightarrow> path \<Rightarrow> error + fs" where
  "os_rename f src dst =
     (case lookup f src of
        None \<Rightarrow> Inl FileNotFoundError
      | Some (File c) \<Rightarrow>
          (case lookup f (parent dst) of
             None \<Rightarrow> Inl FileNotFoundError
           | Some (File c') \<Rightarrow> Inl NotADirectoryError
           | Some Dir \<Rightarrow>
               if is_dir f dst then Inl IsADirectoryError
               else Inr (AList.update dst (File c) (AList.delete src f)))
      | Some Dir \<Rightarrow>
          if prefix src dst then Inl ShutilError
          else
            (case lookup f (parent dst) of
               None \<Rightarrow> Inl FileNotFoundError
             | Some (File c') \<Rightarrow> Inl NotADirectoryError
             | Some Dir \<Rightarrow>
                 if exists f dst then Inl FileExistsError
                 else Inr (rename_tree f src dst)))"

definition shutil_move :: "fs \<Rightarrow> path \<Rightarrow> path \<Rightarrow> error + fs" where
  "shutil_move f src dst =
     (if is_dir f dst \<and> src = dst then Inr f
      else
        let real_dst = (if is_dir f dst then dst @ [name src] else dst) in
        if is_dir f dst \<and> exists f real_dst then Inl ShutilError
        else os_rename f src real_dst)"

section \<open>Collision probing\<close>

lemma digit_inj: "a < 10 \<Longrightarrow> b < 10 \<Longrightarrow> digit a = digit b \<Longrightarrow> a = b"
proof -
  assume a: "a < 10" and b: "b < 10" and e: "digit a = digit b"
  have d: "distinct ''0123456789''" by simp
  have "length ''0123456789'' = 10" by simp
  with a b d e show "a = b"
    unfolding digit_def by (metis nth_eq_iff_index_eq)
qed

lemma str_nat_length: "(length (str_nat n) = 1) = (n < 10)"
proof (induction n rule: str_nat.induct)
  case (1 n)
  show ?case
  proof (cases "n < 10")
    case True
    then show ?thesis by (simp add: str_nat.simps)
  next
    case False
    have "length (str_nat (n div 10)) \<noteq> 0"
      by (subst str_nat.simps) simp
    with False show ?thesis by (subst str_nat.simps) simp
  qed
qed

lemma str_nat_inj: "str_nat n = str_nat m \<Longrightarrow> n = m"
proof (induction n arbitrary: m rule: str_nat.induct)
  case (1 n)
  show ?case
  proof (cases "n < 10")
    case True
    with "1.prems" have "m < 10" using str_nat_length by metis
    with True "1.prems" show ?thesis
      by (simp add: str_nat.simps [of n] str_nat.simps [of m] digit_inj)
  next
    case False
    with "1.prems" have m: "\<not> m < 10" using str_nat_length by metis
    from False m "1.prems"
    have "str_nat (n div 10) @ [digit (n mod 10)] = str_nat (m div 10) @ [digit (m mod 10)]"
      by (simp add: str_nat.simps [of n] str_nat.simps [of m])
    then have e: "str_nat (n div 10) = str_nat (m div 10)" and d: "digit (n mod 10) = digit (m mod 10)"
      by simp_all
    from "1.IH" [OF False e] have "n div 10 = m div 10" .
    moreover from d have "n mod 10 = m mod 10" by (simp add: digit_inj)
    ultimately show ?thesis by (metis div_mult_mod_eq)
  qed
qed

definition candidate :: "path \<Rightarrow> string \<Rightarrow> string \<Rightarrow> nat \<Rightarrow> path" where
  "candidate dest_folder stm ext counter = dest_folder @ [stm @ ''_'' @ str_nat counter @ ext]"

lemma candidate_inj: "candidate d s e k = candidate d s e k' \<Longrightarrow> k = k'"
  by (simp add: candidate_def str_nat_inj)

lemma candidate_free: "\<exists>k\<ge>c. \<not> exists f (candidate d s e k)"
proof (rule ccontr)
  assume "\<not> ?thesis"
  then have "candidate d s e ` {c..} \<subseteq> fst ` set f"
    by (auto simp: exists_def lookup_def map_of_eq_None_iff)
  then have "finite (candidate d s e ` {c..})"
    by (rule finite_subset) simp
  moreover have "inj_on (candidate d s e) {c..}"
    by (rule inj_onI) (rule candidate_inj)
  ultimately have "finite {c..}" by (rule finite_imageD)
  then show False by (simp add: infinite_Ici)
qed

definition first_free :: "fs \<Rightarrow> path \<Rightarrow> string \<Rightarrow> string \<Rightarrow> nat \<Rightarrow> nat" where
  "first_free f d s e c = (LEAST k. c \<le> k \<and> \<not> exists f (candidate d s e k))"

lemma first_free_props:
  "c \<le> first_free f d s e c \<and> \<not> exists f (candidate d s e (first_free f d s e c))"
  unfolding first_free_def using candidate_free [of c f d s e]
  by (metis (mono_tags, lifting) LeastI)

lemma first_free_Suc:
  "exists f (candidate d s e c) \<Longrightarrow> first_free f d s e (Suc c) = first_free f d s e c"
proof -
  assume ex: "exists f (candidate d s e c)"
  have "(\<lambda>k. Suc c \<le> k \<and> \<not> exists f (candidate d s e k)) =
        (\<lambda>k. c \<le> k \<and> \<not> exists f (candidate d s e k))"
  proof (rule ext)
    fix k show "(Suc c \<le> k \<and> \<not> exists f (candidate d s e k)) =
                (c \<le> k \<and> \<not> exists f (candidate d s e k))"
      using ex by (cases "k = c") auto
  qed
  then show ?thesis by (simp add: first_free_def)
qed

text \<open>
  The loop \<open>while dest_path.exists(): dest_path = dest_folder / f"{stem}_{counter}{ext}";
  counter += 1\<close>, on the loop state \<open>(dest_path, counter)\<close>.
\<close>

function probe :: "fs \<Rightarrow> path \<Rightarrow> string \<Rightarrow> string \<Rightarrow> path \<Rightarrow> nat \<Rightarrow> path" where
  "probe f dest_folder stm ext dest_path counter =
     (if exists f dest_path
      then probe f dest_folder stm ext
             (dest_folder @ [stm @ ''_'' @ str_nat counter @ ext]) (counter + 1)
      else dest_path)"
  by pat_completeness auto
termination
proof (relation "measure (\<lambda>(f, d, s, e, dp, c).
         if exists f dp then Suc (first_free f d s e c - c) else 0)", goal_cases)
  case 1
  show ?case by simp
next
  case (2 f d s e dp c)
  show ?case
  proof (cases "exists f (candidate d s e c)")
    case True
    have "Suc c \<le> first_free f d s e (Suc c)" using first_free_props by blast
    with True 2 show ?thesis
      by (auto simp: first_free_Suc)
  next
    case False
    with 2 show ?thesis by (simp add: candidate_def)
  qed
qed

declare probe.simps [simp del]

section \<open>Moving a file\<close>

text \<open>
  The world outside the handler: the file system, the trace of the moves that
  \<open>shutil.move\<close> has performed (source, destination), and the trace of the
  callback invocations (destination, category). The field \<open>on_file_moved\<close> of the
  handler says whether a callback is registered.
\<close>

record world =
  disk :: fs
  moved :: "(path \<times> path) list"
  notified :: "(path \<times> string) list"

text \<open>
  The duplicate handling shared by \<open>DownloadHandler.move_file\<close> and
  \<open>Boop.reorganize_all\<close>, which repeat the same lines.
\<close>

definition resolve :: "fs \<Rightarrow> path \<Rightarrow> path \<Rightarrow> string \<Rightarrow> path" where
  "resolve f dest_folder path ext =
     (let dest_path = dest_folder @ [name path] in
      if exists f dest_path
      then probe f dest_folder (stem_of path) ext dest_path 1
      else dest_path)"

text \<open>
  \<open>move_file\<close> has no \<open>return\<close> statement: its value is Python's \<open>None\<close>, here
  \<open>None\<close> of type \<open>(path \<times> string) option\<close>. An exception leaves the effects made
  so far in place.
\<close>

definition move_file ::
  "handler \<Rightarrow> world \<Rightarrow> path \<Rightarrow> (error + (path \<times> string) option) \<times> world" where
  "move_file h w path =
     (let ext = lower (suffix_of path);
          category = (case ext_map h ext of Some c \<Rightarrow> c | None \<Rightarrow> ''Other'');
          dest_folder = watch_folder h @ [category]
      in case mkdir_exist_ok (disk w) dest_folder of
           Inl err \<Rightarrow> (Inl err, w)
         | Inr f1 \<Rightarrow>
             let dest_path = resolve f1 dest_folder path ext
             in case shutil_move f1 path dest_path of
                  Inl err \<Rightarrow> (Inl err, w\<lparr>disk := f1\<rparr>)
                | Inr f2 \<Rightarrow>
                    (Inr None,
                     \<lparr>disk = f2,
                      moved = moved w @ [(path, dest_path)],
                      notified = (if on_file_moved h
                                  then notified w @ [(dest_path, category)]
                                  else notified w)\<rparr>))"

section \<open>The periodic tick\<close>

fun process_loop ::
  "handler \<Rightarrow> real \<Rightarrow> (path \<times> real) list \<Rightarrow> path list \<Rightarrow> world
     \<Rightarrow> error option \<times> path list \<times> world" where
  "process_loop h now [] to_remove w = (None, to_remove, w)"
| "process_loop h now ((path, last_modified) # rest) to_remove w =
     (if now - last_modified < debounce h then process_loop h now rest to_remove w
      else
        let to_remove' = to_remove @ [path] in
        if \<not> exists (disk w) path then process_loop h now rest to_remove' w
        else
          (case move_file h w path of
             (Inl err, w') \<Rightarrow> (Some err, to_remove', w')
           | (Inr r, w') \<Rightarrow> process_loop h now rest to_remove' w'))"

text \<open>
  \<open>process_pending\<close>: an exception raised by \<open>move_file\<close> leaves the function
  before the clean-up loop, so \<open>pending\<close> is then as it was.
\<close>

definition process_pending ::
  "handler \<Rightarrow> world \<Rightarrow> real \<Rightarrow> (error + unit) \<times> handler \<times> world" where
  "process_pending h w now =
     (case process_loop h now (pending h) [] w of
        (Some err, to_remove, w') \<Rightarrow> (Inl err, h, w')
      | (None, to_remove, w') \<Rightarrow>
          (Inr (), h\<lparr>pending := fold AList.delete to_remove (pending h)\<rparr>, w'))"

text \<open>The paths that a tick appended to \<open>to_remove\<close>: those it set out to process.\<close>

definition attempted :: "handler \<Rightarrow> world \<Rightarrow> real \<Rightarrow> path list" where
  "attempted h w now = fst (snd (process_loop h now (pending h) [] w))"

section \<open>One-shot sweep\<close>

record boop =
  categories :: "(string \<times> string list) list"
  boop_watch_folder :: path
  boop_on_file_moved :: bool
  last_file :: "path option"

fun reorganize_loop ::
  "(string \<rightharpoonup> string) \<Rightarrow> path list \<Rightarrow> boop \<Rightarrow> world \<Rightarrow> nat
     \<Rightarrow> (error + nat) \<times> boop \<times> world" where
  "reorganize_loop em [] b w count = (Inr count, b, w)"
| "reorganize_loop em (path # rest) b w count =
     (if is_dir (disk w) path \<or> startswith_dot (name path)
      then reorganize_loop em rest b w count
      else
        let ext = lower (suffix_of path);
            category = (case em ext of Some c \<Rightarrow> c | None \<Rightarrow> ''Other'');
            dest_folder = boop_watch_folder b @ [category]
        in case mkdir_exist_ok (disk w) dest_folder of
             Inl err \<Rightarrow> (Inl err, b, w)
           | Inr f1 \<Rightarrow>
               let dest_path = resolve f1 dest_folder path ext
               in case shutil_move f1 path dest_path of
                    Inl err \<Rightarrow> (Inl err, b, w\<lparr>disk := f1\<rparr>)
                  | Inr f2 \<Rightarrow>
                      reorganize_loop em rest
                        (b\<lparr>last_file := Some dest_path\<rparr>)
                        \<lparr>disk = f2,
                         moved = moved w @ [(path, dest_path)],
                         notified = (if boop_on_file_moved b
                                     then notified w @ [(dest_path, category)]
                                     else notified w)\<rparr>
                        (count + 1))"

text \<open>
  \<open>Path.iterdir\<close> lists the directory when the loop starts, in an order the
  operating system chooses: \<open>entries\<close> is that listing. \<open>listdir\<close> gives the entries
  in the order of the model's file system.
\<close>

definition listdir :: "fs \<Rightarrow> path \<Rightarrow> path list" where
  "listdir f folder = remdups (filter (\<lambda>p. p \<noteq> [] \<and> parent p = folder) (map fst f))"

definition reorganize_all ::
  "boop \<Rightarrow> world \<Rightarrow> path list \<Rightarrow> (error + nat) \<times> boop \<times> world" where
  "reorganize_all b w entries =
     (let em = build_extension_map (categories b) in
      case lookup (disk w) (boop_watch_folder b) of
        None \<Rightarrow> (Inl FileNotFoundError, b, w)
      | Some (File c) \<Rightarrow> (Inl NotADirectoryError, b, w)
      | Some Dir \<Rightarrow> reorganize_loop em entries b w 0)"

section \<open>Runs of the engine\<close>

text \<open>
  What can happen to a handler: a creation or a modification event, a tick (each with
  the reading of \<open>time.time()\<close> taken inside it), or a change of the file system by
  anything else on the machine.
\<close>

datatype action = Created event real | Modified event real | Tick real | FsChange fs

fun step :: "handler \<times> world \<Rightarrow> action \<Rightarrow> handler \<times> world" where
  "step (h, w) (Created ev now) = (on_created h ev now, w)"
| "step (h, w) (Modified ev now) = (on_modified h ev now, w)"
| "step (h, w) (Tick now) = snd (process_pending h w now)"
| "step (h, w) (FsChange f) = (h, w\<lparr>disk := f\<rparr>)"

definition run :: "handler \<times> world \<Rightarrow> action list \<Rightarrow> handler \<times> world" where
  "run s tr = foldl step s tr"

section \<open>Category and destination of a path\<close>

text \<open>
  The category that \<open>move_file\<close> and \<open>reorganize_all\<close> select for a path, and the
  destination path they compute for it on a given file system.
\<close>

definition category_of :: "(string \<rightharpoonup> string) \<Rightarrow> path \<Rightarrow> string" where
  "category_of em path = (case em (lower (suffix_of path)) of Some c \<Rightarrow> c | None \<Rightarrow> ''Other'')"

definition destination :: "(string \<rightharpoonup> string) \<Rightarrow> path \<Rightarrow> fs \<Rightarrow> path \<Rightarrow> path" where
  "destination em watch f path =
     resolve f (watch @ [category_of em path]) path (lower (suffix_of path))"

section \<open>Example configuration\<close>

definition ex_handler :: handler where
  "ex_handler = \<lparr>watch_folder = [''D''],
     ext_map = build_extension_map [(''Images'', [''.jpg'', ''.PNG'']), (''Documents'', [''.pdf''])],
     debounce = 2, on_file_moved = True, pending = []\<rparr>"

definition ex_world :: world where
  "ex_world = \<lparr>disk = [([], Dir), ([''D''], Dir), ([''D'', ''a.txt''], File ''second''),
       ([''D'', ''Other''], Dir), ([''D'', ''Other'', ''a.txt''], File ''first'')],
     moved = [], notified = []\<rparr>"

lemmas eval_defs =
  lower_def lower_char_def parent_def name_def startswith_dot_def rfind_def suffix_of_def
  stem_of_def digit_def str_nat.simps build_extension_map_def lookup_def exists_def is_dir_def
  category_of_def

definition ex_pending_handler :: handler where
  "ex_pending_handler = ex_handler\<lparr>pending := [([''D'', ''new''], 1)]\<rparr>"

definition ex_dir_event :: event where
  "ex_dir_event = \<lparr>is_directory = True, src_path = [''D'', ''new'']\<rparr>"

definition ex_upper_world :: world where
  "ex_upper_world = \<lparr>disk = [([], Dir), ([''D''], Dir), ([''D'', ''Report.PDF''], File ''new''),
       ([''D'', ''Photo.JPG''], File ''img''), ([''D'', ''Documents''], Dir),
       ([''D'', ''Documents'', ''Report.PDF''], File ''old'')],
     moved = [], notified = []\<rparr>"

definition ex_blocked_world :: world where
  "ex_blocked_world = \<lparr>disk = [([], Dir), ([''D''], Dir), ([''D'', ''Other''], File ''x''),
       ([''D'', ''b.txt''], File ''y'')],
     moved = [], notified = []\<rparr>"

section \<open>Notions used to state the properties of runs\<close>

text \<open>
  An action concerns a path when it is a creation or modification event for it. A
  handler accepts a creation event when none of the three guards of \<open>on_created\<close>
  returns early.
\<close>

definition concerns :: "path \<Rightarrow> action \<Rightarrow> bool" where
  "concerns p a =
     (case a of Created ev t \<Rightarrow> src_path ev = p | Modified ev t \<Rightarrow> src_path ev = p | _ \<Rightarrow> False)"

definition accepts :: "handler \<Rightarrow> event \<Rightarrow> bool" where
  "accepts h ev =
     (\<not> is_directory ev \<and> parent (src_path ev) = watch_folder h
      \<and> \<not> startswith_dot (name (src_path ev)))"

definition ex_file_event :: event where
  "ex_file_event = \<lparr>is_directory = False, src_path = [''D'', ''a.txt'']\<rparr>"

definition ex_other_event :: event where
  "ex_other_event = \<lparr>is_directory = False, src_path = [''D'', ''Other'']\<rparr>"

definition ex_b_event :: event where
  "ex_b_event = \<lparr>is_directory = False, src_path = [''D'', ''b.txt'']\<rparr>"

definition ex_blocked_handler :: handler where
  "ex_blocked_handler = ex_handler\<lparr>pending := [([''D'', ''Other''], 0), ([''D'', ''b.txt''], 0)]\<rparr>"

definition ex_gone_handler :: handler where
  "ex_gone_handler = ex_handler\<lparr>pending := [([''D'', ''gone.txt''], 0)]\<rparr>"

text \<open>
  Position \<open>i\<close> of a run holds an accepted creation event for the path; the tick at
  position \<open>j\<close> of a run completed and found an entry of the path whose quiet time had
  reached the debounce window, so that it removed the path.
\<close>

definition ex_hidden_event :: event where
  "ex_hidden_event = \<lparr>is_directory = False, src_path = [''D'', ''.part'']\<rparr>"

definition ex_trace :: "action list" where
  "ex_trace = [Created ex_file_event 10, Created ex_hidden_event 10, Modified ex_b_event 10, Tick 11]"

definition created_at :: "handler \<Rightarrow> action list \<Rightarrow> path \<Rightarrow> nat \<Rightarrow> bool" where
  "created_at h0 tr path i =
     (case tr ! i of Created ev t \<Rightarrow> src_path ev = path \<and> accepts h0 ev | _ \<Rightarrow> False)"

definition removed_by :: "handler \<times> world \<Rightarrow> action \<Rightarrow> path \<Rightarrow> bool" where
  "removed_by s a path =
     (case a of
        Tick now \<Rightarrow>
          (case s of (h, w) \<Rightarrow>
             fst (process_pending h w now) = Inr ()
             \<and> (\<exists>(p, ls)\<in>set (pending h). p = path \<and> debounce h \<le> now - ls))
      | _ \<Rightarrow> False)"

definition removed_at :: "handler \<times> world \<Rightarrow> action list \<Rightarrow> path \<Rightarrow> nat \<Rightarrow> bool" where
  "removed_at s0 tr path j = removed_by (run s0 (take j tr)) (tr ! j) path"

text \<open>
  Notions for a file that keeps being modified. A refresh of a path is a modification
  event for it that is not for a directory. \<open>chronological lo tr\<close>: the clock readings
  of the run never go back, starting from \<open>lo\<close>. \<open>gaps_below d p seen tr\<close>: each refresh
  of \<open>p\<close> comes less than \<open>d\<close> after the previous one, the first one less than \<open>d\<close>
  after \<open>seen\<close>. \<open>refresh_follows p tr\<close>: every tick of the run has a refresh of \<open>p\<close>
  after it, that is, the refreshes continue.
\<close>

definition is_refresh :: "path \<Rightarrow> action \<Rightarrow> bool" where
  "is_refresh p a =
     (case a of Modified ev t \<Rightarrow> \<not> is_directory ev \<and> src_path ev = p | _ \<Rightarrow> False)"

definition is_tick :: "action \<Rightarrow> bool" where
  "is_tick a = (case a of Tick t \<Rightarrow> True | _ \<Rightarrow> False)"

definition time_of :: "action \<Rightarrow> real option" where
  "time_of a =
     (case a of Created ev t \<Rightarrow> Some t | Modified ev t \<Rightarrow> Some t | Tick t \<Rightarrow> Some t
      | FsChange f \<Rightarrow> None)"

fun chronological :: "real \<Rightarrow> action list \<Rightarrow> bool" where
  "chronological lo [] = True"
| "chronological lo (a # tr) =
     (case time_of a of
        None \<Rightarrow> chronological lo tr
      | Some t \<Rightarrow> lo \<le> t \<and> chronological t tr)"

fun gaps_below :: "real \<Rightarrow> path \<Rightarrow> real \<Rightarrow> action list \<Rightarrow> bool" where
  "gaps_below d p seen [] = True"
| "gaps_below d p seen (a # tr) =
     (if is_refresh p a
      then (case time_of a of
              Some t \<Rightarrow> t - seen < d \<and> gaps_below d p t tr
            | None \<Rightarrow> False)
      else gaps_below d p seen tr)"

fun refresh_follows :: "path \<Rightarrow> action list \<Rightarrow> bool" where
  "refresh_follows p [] = True"
| "refresh_follows p (a # tr) =
     ((if is_tick a then list_ex (is_refresh p) tr else True) \<and> refresh_follows p tr)"

definition ex_refresh_handler :: handler where
  "ex_refresh_handler = ex_handler\<lparr>pending := [([''D'', ''a.txt''], 0)]\<rparr>"

definition ex_refresh_trace :: "action list" where
  "ex_refresh_trace =
     [Modified ex_file_event (3/2), Tick (5/2), Modified ex_file_event 3, Tick 4,
      Modified ex_file_event (9/2)]"

text \<open>
  An entry that the sweep does not skip: the negation of the guard
  \<open>path.is_dir() or path.name.startswith(".")\<close>.
\<close>

definition eligible :: "fs \<Rightarrow> path \<Rightarrow> bool" where
  "eligible f p = (\<not> (is_dir f p \<or> startswith_dot (name p)))"

text \<open>
  The names that the duplicate handling gives along a sequence of moves
  (source, destination) into the category folders of \<open>W\<close>, with \<open>occ\<close> the paths
  occupied before the first move: a source whose own name is free in its category
  folder keeps it; otherwise it gets \<open>stem_k + lowercase(ext)\<close> for the first \<open>k \<ge> 1\<close>
  that is free; and each destination is occupied for the moves after it.
\<close>

fun probed_names ::
  "(string \<rightharpoonup> string) \<Rightarrow> path \<Rightarrow> (path \<Rightarrow> bool) \<Rightarrow> (path \<times> path) list \<Rightarrow> bool" where
  "probed_names em W occ [] = True"
| "probed_names em W occ ((s, d) # ms) =
     ((if occ (W @ [category_of em s, name s])
       then (\<exists>k\<ge>1.
               d = W @ [category_of em s, stem_of s @ ''_'' @ str_nat k @ lower (suffix_of s)]
               \<and> \<not> occ (W @ [category_of em s,
                               stem_of s @ ''_'' @ str_nat k @ lower (suffix_of s)])
               \<and> (\<forall>j. 1 \<le> j \<and> j < k \<longrightarrow>
                     occ (W @ [category_of em s,
                               stem_of s @ ''_'' @ str_nat j @ lower (suffix_of s)])))
       else d = W @ [category_of em s, name s])
      \<and> probed_names em W (\<lambda>q. occ q \<or> q = d) ms)"

definition ex_boop :: boop where
  "ex_boop = \<lparr>categories = [(''Images'', [''.jpg'', ''.PNG'']), (''Documents'', [''.pdf''])],
     boop_watch_folder = [''D''], boop_on_file_moved = True, last_file = None\<rparr>"

definition ex_sweep_world :: world where
  "ex_sweep_world = \<lparr>disk = [([], Dir), ([''D''], Dir), ([''D'', ''a.txt''], File ''text''),
       ([''D'', ''photo.jpg''], File ''new''), ([''D'', ''.hidden''], File ''h''),
       ([''D'', ''Images''], Dir), ([''D'', ''Images'', ''photo.jpg''], File ''old'')],
     moved = [], notified = []\<rparr>"

section \<open>Facts about the file system operations and the probing loop\<close>

lemma lookup_update: "lookup (AList.update k v f) = (lookup f)(k \<mapsto> v)"
  by (rule ext) (simp add: lookup_def update_conv')

lemma lookup_delete: "lookup (AList.delete k f) = (lookup f)(k := None)"
  by (rule ext) (simp add: lookup_def delete_conv')

lemma mkdir_ok:
  assumes "\<forall>c. lookup f p \<noteq> Some (File c)"
      and "lookup f p = None \<longrightarrow> lookup f (parent p) = Some Dir"
  shows "\<exists>f1. mkdir_exist_ok f p = Inr f1 \<and> lookup f1 = (lookup f)(p \<mapsto> Dir)"
proof (cases "lookup f p")
  case None
  with assms show ?thesis by (simp add: mkdir_exist_ok_def lookup_update)
next
  case (Some n)
  with assms have "n = Dir" by (cases n) auto
  with Some have "(lookup f)(p \<mapsto> Dir) = lookup f" by (auto simp: fun_eq_iff)
  with Some \<open>n = Dir\<close> show ?thesis by (simp add: mkdir_exist_ok_def)
qed

lemma shutil_move_file:
  assumes "lookup f src = Some (File c)" and "\<not> exists f dst"
      and "lookup f (parent dst) = Some Dir"
  shows "\<exists>f2. shutil_move f src dst = Inr f2 \<and> lookup f2 = (lookup f)(src := None, dst \<mapsto> File c)"
  using assms
  by (simp add: shutil_move_def os_rename_def is_dir_def exists_def lookup_update lookup_delete)

lemma first_free_self: "\<not> exists f (candidate d s e c) \<Longrightarrow> first_free f d s e c = c"
  unfolding first_free_def by (rule Least_equality) auto

lemma first_free_occupied:
  "c \<le> j \<Longrightarrow> j < first_free f d s e c \<Longrightarrow> exists f (candidate d s e j)"
  unfolding first_free_def using not_less_Least by blast

lemma probe_candidate:
  "probe f d s e (candidate d s e c) (Suc c) = candidate d s e (first_free f d s e c)"
proof (induction "first_free f d s e c - c" arbitrary: c)
  case 0
  have "c \<le> first_free f d s e c" using first_free_props by blast
  with 0 have eq: "first_free f d s e c = c" by simp
  then have "\<not> exists f (candidate d s e c)" using first_free_props [of c f d s e] by simp
  with eq show ?case by (subst probe.simps) simp
next
  case (Suc n)
  show ?case
  proof (cases "exists f (candidate d s e c)")
    case False
    then show ?thesis by (subst probe.simps) (simp add: first_free_self)
  next
    case True
    then have ff: "first_free f d s e (Suc c) = first_free f d s e c" by (rule first_free_Suc)
    with Suc.hyps(2) have "n = first_free f d s e (Suc c) - Suc c" by simp
    from Suc.hyps(1) [OF this] ff True show ?thesis
      by (subst probe.simps) (simp add: candidate_def)
  qed
qed

lemma resolve_eq:
  "resolve f d p e =
     (if exists f (d @ [name p]) then candidate d (stem_of p) e (first_free f d (stem_of p) e 1)
      else d @ [name p])"
proof (cases "exists f (d @ [name p])")
  case False
  then show ?thesis by (simp add: resolve_def)
next
  case True
  have "probe f d (stem_of p) e (d @ [name p]) 1 = probe f d (stem_of p) e (candidate d (stem_of p) e 1) (Suc 1)"
    using True by (subst probe.simps) (simp add: candidate_def)
  with True show ?thesis by (simp add: resolve_def Let_def probe_candidate)
qed

lemma resolve_free: "\<not> exists f (resolve f d p e)"
  using first_free_props [of 1 f d "stem_of p" e] by (simp add: resolve_eq)

lemma resolve_parent: "parent (resolve f d p e) = d"
  by (simp add: resolve_eq parent_def candidate_def)

lemma resolve_cong:
  assumes "\<And>x. exists f1 (d @ [x]) = exists f (d @ [x])"
  shows "resolve f1 d p e = resolve f d p e"
proof -
  have "first_free f1 d (stem_of p) e 1 = first_free f d (stem_of p) e 1"
    by (simp add: first_free_def candidate_def assms)
  then show ?thesis by (simp add: resolve_eq assms)
qed

lemma pipeline_file:
  assumes src: "lookup f p = Some (File c)"
      and nofile: "\<forall>c'. lookup f d \<noteq> Some (File c')"
      and par: "lookup f d = None \<longrightarrow> lookup f (parent d) = Some Dir"
  shows "\<exists>f1 f2. mkdir_exist_ok f d = Inr f1
           \<and> resolve f1 d p e = resolve f d p e
           \<and> shutil_move f1 p (resolve f d p e) = Inr f2
           \<and> lookup f2 = (lookup f)(d \<mapsto> Dir, p := None, resolve f d p e \<mapsto> File c)"
proof -
  from mkdir_ok [OF nofile par] obtain f1
    where mk: "mkdir_exist_ok f d = Inr f1" and l1: "lookup f1 = (lookup f)(d \<mapsto> Dir)"
    by blast
  have r: "resolve f1 d p e = resolve f d p e"
    by (rule resolve_cong) (simp add: exists_def l1)
  from src nofile have "p \<noteq> d" by auto
  with src l1 have s1: "lookup f1 p = Some (File c)" by simp
  have nf: "\<not> exists f1 (resolve f d p e)" using resolve_free [of f1 d p e] r by simp
  have pd: "lookup f1 (parent (resolve f d p e)) = Some Dir" by (simp add: resolve_parent l1)
  from shutil_move_file [OF s1 nf pd] l1 mk r show ?thesis by auto
qed

lemma move_file_file:
  assumes src: "lookup (disk w) p = Some (File c)"
      and nofile: "\<forall>c'. lookup (disk w) (watch_folder h @ [category_of (ext_map h) p]) \<noteq> Some (File c')"
      and par: "lookup (disk w) (watch_folder h @ [category_of (ext_map h) p]) = None
                  \<longrightarrow> lookup (disk w) (watch_folder h) = Some Dir"
  shows "\<exists>f2. move_file h w p =
           (Inr None,
            \<lparr>disk = f2,
             moved = moved w @ [(p, destination (ext_map h) (watch_folder h) (disk w) p)],
             notified = (if on_file_moved h
                         then notified w @ [(destination (ext_map h) (watch_folder h) (disk w) p,
                                             category_of (ext_map h) p)]
                         else notified w)\<rparr>)
         \<and> lookup f2 = (lookup (disk w))
              (watch_folder h @ [category_of (ext_map h) p] \<mapsto> Dir, p := None,
               destination (ext_map h) (watch_folder h) (disk w) p \<mapsto> File c)"
proof -
  let ?d = "watch_folder h @ [category_of (ext_map h) p]"
  let ?e = "lower (suffix_of p)"
  from par have par': "lookup (disk w) ?d = None \<longrightarrow> lookup (disk w) (parent ?d) = Some Dir"
    by (simp add: parent_def)
  from pipeline_file [OF src nofile par', of ?e] obtain f1 f2 where
    "mkdir_exist_ok (disk w) ?d = Inr f1" "resolve f1 ?d p ?e = resolve (disk w) ?d p ?e"
    "shutil_move f1 p (resolve (disk w) ?d p ?e) = Inr f2"
    "lookup f2 = (lookup (disk w))(?d \<mapsto> Dir, p := None, resolve (disk w) ?d p ?e \<mapsto> File c)"
    by blast
  then show ?thesis
    by (simp add: move_file_def Let_def destination_def category_of_def [symmetric])
qed

section \<open>Collision handling\<close>

text \<open>
  Claim C2. When the initial destination \<open>watch_folder / category / name\<close> of a regular
  file is occupied, \<open>move_file\<close> probes \<open>stem_1.ext\<close>, \<open>stem_2.ext\<close>, ... from 1
  upward and moves the file to the first unoccupied name \<open>k\<close>: every name below \<open>k\<close>
  is occupied, name \<open>k\<close> is free, the file ends up there, and no other path of the
  file system changes, so nothing is overwritten.
\<close>

theorem move_file_collision:
  assumes src: "lookup (disk w) path = Some (File c)"
      and folder: "lookup (disk w) (watch_folder h @ [category_of (ext_map h) path]) = Some Dir"
      and occupied: "exists (disk w) (watch_folder h @ [category_of (ext_map h) path, name path])"
  shows "\<exists>k w'. 1 \<le> k
           \<and> (\<forall>j. 1 \<le> j \<and> j < k \<longrightarrow>
                 exists (disk w) (watch_folder h @ [category_of (ext_map h) path,
                    stem_of path @ ''_'' @ str_nat j @ lower (suffix_of path)]))
           \<and> \<not> exists (disk w) (watch_folder h @ [category_of (ext_map h) path,
                    stem_of path @ ''_'' @ str_nat k @ lower (suffix_of path)])
           \<and> move_file h w path = (Inr None, w')
           \<and> moved w' = moved w @ [(path, watch_folder h @ [category_of (ext_map h) path,
                    stem_of path @ ''_'' @ str_nat k @ lower (suffix_of path)])]
           \<and> lookup (disk w') (watch_folder h @ [category_of (ext_map h) path,
                    stem_of path @ ''_'' @ str_nat k @ lower (suffix_of path)]) = Some (File c)
           \<and> lookup (disk w') path = None
           \<and> (\<forall>q. q \<noteq> path \<and> q \<noteq> watch_folder h @ [category_of (ext_map h) path,
                    stem_of path @ ''_'' @ str_nat k @ lower (suffix_of path)]
                  \<longrightarrow> lookup (disk w') q = lookup (disk w) q)"
proof -
  let ?d = "watch_folder h @ [category_of (ext_map h) path]"
  let ?e = "lower (suffix_of path)"
  let ?k = "first_free (disk w) ?d (stem_of path) ?e 1"
  let ?dst = "destination (ext_map h) (watch_folder h) (disk w) path"
  from occupied have dst: "?dst = candidate ?d (stem_of path) ?e ?k"
    by (simp add: destination_def resolve_eq)
  then have dst': "?dst = watch_folder h @ [category_of (ext_map h) path,
                    stem_of path @ ''_'' @ str_nat ?k @ lower (suffix_of path)]"
    by (simp add: candidate_def)
  have free: "\<not> exists (disk w) ?dst" by (simp add: destination_def resolve_free)
  with src have ne: "?dst \<noteq> path" by (auto simp: exists_def)
  from folder have nofile: "\<forall>c'. lookup (disk w) ?d \<noteq> Some (File c')" by simp
  from folder have par: "lookup (disk w) ?d = None \<longrightarrow> lookup (disk w) (watch_folder h) = Some Dir"
    by simp
  from move_file_file [OF src nofile par] obtain f2 where
    mv: "move_file h w path =
           (Inr None, \<lparr>disk = f2, moved = moved w @ [(path, ?dst)],
             notified = (if on_file_moved h then notified w @ [(?dst, category_of (ext_map h) path)]
                         else notified w)\<rparr>)"
    and l2: "lookup f2 = (lookup (disk w))(?d \<mapsto> Dir, path := None, ?dst \<mapsto> File c)"
    by blast
  have k1: "1 \<le> ?k" using first_free_props [of 1 "disk w" ?d "stem_of path" ?e] by simp
  have occ: "\<forall>j. 1 \<le> j \<and> j < ?k \<longrightarrow> exists (disk w) (candidate ?d (stem_of path) ?e j)"
    using first_free_occupied by blast
  have frame: "\<forall>q. q \<noteq> path \<and> q \<noteq> ?dst \<longrightarrow> lookup f2 q = lookup (disk w) q"
    using l2 folder by auto
  show ?thesis
    apply (rule exI [of _ ?k])
    apply (rule exI [of _ "\<lparr>disk = f2, moved = moved w @ [(path, ?dst)],
             notified = (if on_file_moved h then notified w @ [(?dst, category_of (ext_map h) path)]
                         else notified w)\<rparr>"])
    using k1 occ free mv l2 ne frame unfolding dst' by (simp add: candidate_def)
qed

theorem move_file_collision_witness:
  "lookup (disk ex_world) [''D'', ''a.txt''] = Some (File ''second'')
   \<and> exists (disk ex_world) [''D'', ''Other'', ''a.txt'']
   \<and> (\<exists>w'. move_file ex_handler ex_world [''D'', ''a.txt''] = (Inr None, w')
          \<and> lookup (disk w') [''D'', ''Other'', ''a.txt''] = Some (File ''first'')
          \<and> lookup (disk w') [''D'', ''Other'', ''a_1.txt''] = Some (File ''second'')
          \<and> lookup (disk w') [''D'', ''a.txt''] = None)"
proof -
  let ?p = "[''D'', ''a.txt'']"
  have cat: "category_of (ext_map ex_handler) ?p = ''Other''"
    by (simp add: ex_handler_def eval_defs)
  have wf: "watch_folder ex_handler = [''D'']" by (simp add: ex_handler_def)
  have st: "stem_of ?p = ''a''" "lower (suffix_of ?p) = ''.txt''" "name ?p = ''a.txt''"
    by (simp_all add: eval_defs)
  have src: "lookup (disk ex_world) ?p = Some (File ''second'')"
    by (simp add: ex_world_def eval_defs)
  have folder: "lookup (disk ex_world) (watch_folder ex_handler @ [category_of (ext_map ex_handler) ?p]) = Some Dir"
    unfolding cat wf by (simp add: ex_world_def eval_defs)
  have occ: "exists (disk ex_world) (watch_folder ex_handler @ [category_of (ext_map ex_handler) ?p, name ?p])"
    unfolding cat wf st by (simp add: ex_world_def eval_defs)
  have first: "lookup (disk ex_world) [''D'', ''Other'', ''a.txt''] = Some (File ''first'')"
    by (simp add: ex_world_def eval_defs)
  have free1: "\<not> exists (disk ex_world) [''D'', ''Other'', ''a_1.txt'']"
    by (simp add: ex_world_def eval_defs)
  have s1: "str_nat 1 = ''1''" "str_nat (Suc 0) = ''1''" by (simp_all add: eval_defs)
  from move_file_collision [OF src folder occ] obtain k w' where
    k: "1 \<le> k"
    and below: "\<forall>j. 1 \<le> j \<and> j < k \<longrightarrow> exists (disk ex_world) [''D'', ''Other'', ''a'' @ ''_'' @ str_nat j @ ''.txt'']"
    and mv: "move_file ex_handler ex_world ?p = (Inr None, w')"
    and at: "lookup (disk w') [''D'', ''Other'', ''a'' @ ''_'' @ str_nat k @ ''.txt''] = Some (File ''second'')"
    and gone: "lookup (disk w') ?p = None"
    and frame: "\<forall>q. q \<noteq> ?p \<and> q \<noteq> [''D'', ''Other'', ''a'' @ ''_'' @ str_nat k @ ''.txt'']
                  \<longrightarrow> lookup (disk w') q = lookup (disk ex_world) q"
    unfolding cat wf st by auto
  have "k = 1"
  proof (rule ccontr)
    assume "k \<noteq> 1"
    with k have "1 \<le> (1::nat) \<and> 1 < k" by simp
    with below have "exists (disk ex_world) [''D'', ''Other'', ''a'' @ ''_'' @ str_nat 1 @ ''.txt'']"
      by blast
    with free1 show False by (simp add: s1)
  qed
  with at have at1: "lookup (disk w') [''D'', ''Other'', ''a_1.txt''] = Some (File ''second'')"
    by (simp add: s1)
  from frame \<open>k = 1\<close> have "lookup (disk w') [''D'', ''Other'', ''a.txt''] = lookup (disk ex_world) [''D'', ''Other'', ''a.txt'']"
    by (simp add: s1)
  with first have keep: "lookup (disk w') [''D'', ''Other'', ''a.txt''] = Some (File ''first'')" by simp
  from src occ mv keep at1 gone show ?thesis unfolding cat wf st by auto
qed

section \<open>The extension index\<close>

lemma fold_extensions:
  "fold (\<lambda>ext m. m(lower ext \<mapsto> c)) es m e = (if e \<in> lower ` set es then Some c else m e)"
  by (induction es arbitrary: m) auto

lemma build_extension_map_snoc:
  "build_extension_map (cats @ [(c, es)]) e =
     (if e \<in> lower ` set es then Some c else build_extension_map cats e)"
  by (simp add: build_extension_map_def fold_extensions)

lemma build_extension_map_last:
  "build_extension_map cats e =
     (case filter (\<lambda>(c, es). e \<in> lower ` set es) cats of
        [] \<Rightarrow> None
      | x # xs \<Rightarrow> Some (fst (last (x # xs))))"
proof (induction cats rule: rev_induct)
  case Nil
  show ?case by (simp add: build_extension_map_def)
next
  case (snoc x cats)
  obtain c es where x: "x = (c, es)" by (cases x)
  show ?case
    unfolding x build_extension_map_snoc using snoc.IH
    by (auto split: list.splits)
qed

lemma build_extension_map_pairs:
  "build_extension_map cats =
     map_of (rev (concat (map (\<lambda>(c, es). map (\<lambda>e. (lower e, c)) es) cats)))"
proof (induction cats rule: rev_induct)
  case Nil
  show ?case by (simp add: build_extension_map_def)
next
  case (snoc x cats)
  obtain c es where x: "x = (c, es)" by (cases x)
  have inner: "map_of (rev (map (\<lambda>e. (lower e, c)) es) @ al) e =
               (if e \<in> lower ` set es then Some c else map_of al e)" for al e
    by (induction es rule: rev_induct) auto
  show ?case
  proof (rule ext)
    fix e
    show "build_extension_map (cats @ [x]) e =
          map_of (rev (concat (map (\<lambda>(c, es). map (\<lambda>e. (lower e, c)) es) (cats @ [x])))) e"
      unfolding x build_extension_map_snoc using snoc.IH by (simp add: inner del: map_of_append)
  qed
qed

lemma lower_char_table: "map lower_char ascii_uppercase = ascii_lowercase"
  by (simp add: ascii_uppercase_def ascii_lowercase_def lower_char_def)

lemma lower_char_other: "ch \<notin> set ascii_uppercase \<Longrightarrow> lower_char ch = ch"
proof -
  assume "ch \<notin> set ascii_uppercase"
  then have "map_of (zip ''ABCDEFGHIJKLMNOPQRSTUVWXYZ'' ''abcdefghijklmnopqrstuvwxyz'') ch = None"
    unfolding ascii_uppercase_def by (subst map_of_zip_is_None) simp_all
  then show ?thesis by (simp add: lower_char_def)
qed

lemma lower_char_not_upper: "lower_char ch \<notin> set ascii_uppercase"
proof (cases "map_of (zip ''ABCDEFGHIJKLMNOPQRSTUVWXYZ'' ''abcdefghijklmnopqrstuvwxyz'') ch")
  case None
  then have "ch \<notin> set ''ABCDEFGHIJKLMNOPQRSTUVWXYZ''"
    by (subst (asm) map_of_zip_is_None) simp_all
  with None show ?thesis by (simp add: lower_char_def ascii_uppercase_def)
next
  case (Some l)
  then have "(ch, l) \<in> set (zip ''ABCDEFGHIJKLMNOPQRSTUVWXYZ'' ''abcdefghijklmnopqrstuvwxyz'')"
    by (rule map_of_SomeD)
  then have "l \<in> set ''abcdefghijklmnopqrstuvwxyz''" by (rule set_zip_rightD)
  then have "l \<notin> set ascii_uppercase" unfolding ascii_uppercase_def by auto
  with Some show ?thesis by (simp add: lower_char_def)
qed

lemma lower_no_upper: "set (lower s) \<inter> set ascii_uppercase = {}"
  using lower_char_not_upper by (auto simp: lower_def)

lemma build_extension_map_dom:
  "dom (build_extension_map cats) = lower ` (\<Union>(c, es)\<in>set cats. set es)"
proof (induction cats rule: rev_induct)
  case Nil
  show ?case by (simp add: build_extension_map_def)
next
  case (snoc x cats)
  obtain c es where x: "x = (c, es)" by (cases x)
  have "dom (build_extension_map (cats @ [(c, es)])) = lower ` set es \<union> dom (build_extension_map cats)"
    by (auto simp: build_extension_map_snoc dom_def)
  with snoc.IH show ?case unfolding x by auto
qed


text \<open>
  Claim C8. \<open>build_extension_map\<close> inserts the lowercased extension of every
  (category, extension) pair in iteration order, a later pair overwriting an earlier
  one: the result is the map of the pairs read from the last to the first, appending
  a category overrides exactly the extensions it lists, and an extension maps to the
  last category that lists it. The keys of the index are exactly the lowercased listed
  extensions, and no key holds an upper-case ASCII letter: \<open>lower\<close> maps each
  upper-case letter to its lower-case letter and leaves every other character as it
  is. The empty table gives the empty index; the function has no failing branch.
\<close>

theorem build_extension_map_last_wins:
  "build_extension_map [] = Map.empty
   \<and> build_extension_map cats =
       map_of (rev (concat (map (\<lambda>(c, es). map (\<lambda>e. (lower e, c)) es) cats)))
   \<and> build_extension_map (cats @ [(c, es)]) e =
       (if e \<in> lower ` set es then Some c else build_extension_map cats e)
   \<and> build_extension_map cats e =
       (case filter (\<lambda>(c, es). e \<in> lower ` set es) cats of
          [] \<Rightarrow> None
        | x # xs \<Rightarrow> Some (fst (last (x # xs))))
   \<and> dom (build_extension_map cats) = lower ` (\<Union>(c, es)\<in>set cats. set es)
   \<and> (\<forall>k\<in>dom (build_extension_map cats). set k \<inter> set ascii_uppercase = {})
   \<and> lower s = map lower_char s
   \<and> map lower_char ascii_uppercase = ascii_lowercase
   \<and> (\<forall>ch. ch \<notin> set ascii_uppercase \<longrightarrow> lower_char ch = ch)"
proof -
  have a: "build_extension_map [] = Map.empty" by (simp add: build_extension_map_def)
  have b: "\<forall>k\<in>dom (build_extension_map cats). set k \<inter> set ascii_uppercase = {}"
    unfolding build_extension_map_dom using lower_no_upper by blast
  have c: "\<forall>ch. ch \<notin> set ascii_uppercase \<longrightarrow> lower_char ch = ch"
    using lower_char_other by blast
  from a build_extension_map_pairs [of cats] build_extension_map_snoc [of cats c es e]
    build_extension_map_last [of cats e] build_extension_map_dom [of cats] b
    lower_def [of s] lower_char_table c
  show ?thesis by (intro conjI)
qed

theorem build_extension_map_last_wins_witness:
  "build_extension_map [(''Images'', [''.JPG'', ''.png'']), (''Pictures'', [''.jpg''])] ''.jpg''
     = Some ''Pictures''
   \<and> build_extension_map [(''Images'', [''.JPG'', ''.png''])] ''.jpg'' = Some ''Images''
   \<and> build_extension_map [(''Images'', [''.JPG'', ''.png''])] ''.JPG'' = None
   \<and> dom (build_extension_map [(''Images'', [''.JPG'', ''.png''])]) = {''.jpg'', ''.png''}"
proof -
  let ?one = "[(''Images'', [''.JPG'', ''.png''])]"
  have low: "lower ''.JPG'' = ''.jpg''" "lower ''.png'' = ''.png''" "lower ''.jpg'' = ''.jpg''"
    by (simp_all add: lower_def lower_char_def)
  note t1 = build_extension_map_last_wins [of ?one "''Pictures''" "[''.jpg'']" "''.jpg''"]
  note t2 = build_extension_map_last_wins [of "[]" "''Images''" "[''.JPG'', ''.png'']" "''.jpg''"]
  from t1 [THEN conjunct2, THEN conjunct2, THEN conjunct1]
  have a: "build_extension_map [(''Images'', [''.JPG'', ''.png'']), (''Pictures'', [''.jpg''])] ''.jpg''
     = Some ''Pictures''"
    by (simp add: low)
  from t2 [THEN conjunct2, THEN conjunct2, THEN conjunct1]
  have b: "build_extension_map ?one ''.jpg'' = Some ''Images''"
    by (simp add: low)
  from t1 [THEN conjunct2, THEN conjunct2, THEN conjunct2, THEN conjunct2, THEN conjunct1]
  have d: "dom (build_extension_map ?one) = {''.jpg'', ''.png''}"
    by (simp add: low)
  have "''.JPG'' \<notin> dom (build_extension_map ?one)" unfolding d by simp
  then have c: "build_extension_map ?one ''.JPG'' = None" by (metis domIff)
  show ?thesis by (intro conjI a b c d)
qed

section \<open>Directory events\<close>

text \<open>
  Claim C9. An event whose is-directory flag is set changes nothing: \<open>on_created\<close>
  and \<open>on_modified\<close> both return the handler as it was, so the path is neither
  inserted into \<open>pending\<close> nor refreshed there, wherever it lies and whatever its
  name is.
\<close>

theorem directory_events_ignored:
  "is_directory ev \<Longrightarrow> on_created h ev now = h \<and> on_modified h ev now = h"
  by (simp add: on_created_def on_modified_def)

theorem directory_events_ignored_witness:
  "is_directory ex_dir_event
   \<and> parent (src_path ex_dir_event) = watch_folder ex_handler
   \<and> \<not> startswith_dot (name (src_path ex_dir_event))
   \<and> src_path ex_dir_event \<in> fst ` set (pending ex_pending_handler)
   \<and> on_created ex_handler ex_dir_event 5 = ex_handler
   \<and> pending (on_modified ex_pending_handler ex_dir_event 5) = [([''D'', ''new''], 1)]"
proof -
  have d: "is_directory ex_dir_event" by (simp add: ex_dir_event_def)
  have p: "pending ex_pending_handler = [([''D'', ''new''], 1)]"
    by (simp add: ex_pending_handler_def)
  from directory_events_ignored [OF d, of ex_handler 5]
    directory_events_ignored [OF d, of ex_pending_handler 5] d p
  show ?thesis
    by (simp add: ex_dir_event_def ex_handler_def parent_def name_def startswith_dot_def)
qed

section \<open>Names chosen on a collision by \<open>move_file\<close>\<close>

lemma move_file_names:
  assumes src: "lookup (disk w) path = Some (File c)"
      and cat: "cat = category_of (ext_map h) path"
      and nofile: "\<forall>c'. lookup (disk w) (watch_folder h @ [cat]) \<noteq> Some (File c')"
      and par: "lookup (disk w) (watch_folder h @ [cat]) = None
                  \<longrightarrow> lookup (disk w) (watch_folder h) = Some Dir"
  shows "\<exists>w' d. move_file h w path = (Inr None, w')
           \<and> moved w' = moved w @ [(path, d)]
           \<and> lookup (disk w') d = Some (File c)
           \<and> (if exists (disk w) (watch_folder h @ [cat, name path])
              then \<exists>k\<ge>1.
                     d = watch_folder h @ [cat, stem_of path @ ''_'' @ str_nat k @ lower (suffix_of path)]
                     \<and> (suffix_of path = [] \<longrightarrow>
                          d = watch_folder h @ [cat, stem_of path @ ''_'' @ str_nat k])
                     \<and> (\<forall>j. 1 \<le> j \<and> j < k \<longrightarrow>
                           exists (disk w) (watch_folder h @
                             [cat, stem_of path @ ''_'' @ str_nat j @ lower (suffix_of path)]))
              else d = watch_folder h @ [cat, name path])"
proof -
  let ?d = "watch_folder h @ [cat]"
  let ?e = "lower (suffix_of path)"
  let ?k = "first_free (disk w) ?d (stem_of path) ?e 1"
  let ?dst = "destination (ext_map h) (watch_folder h) (disk w) path"
  from move_file_file [OF src nofile [unfolded cat] par [unfolded cat]] obtain f2 where
    mv: "move_file h w path =
           (Inr None, \<lparr>disk = f2, moved = moved w @ [(path, ?dst)],
             notified = (if on_file_moved h then notified w @ [(?dst, category_of (ext_map h) path)]
                         else notified w)\<rparr>)"
    and l2: "lookup f2 ?dst = Some (File c)"
    by auto
  have k1: "1 \<le> ?k" using first_free_props [of 1 "disk w" ?d "stem_of path" ?e] by simp
  have occ: "\<forall>j. 1 \<le> j \<and> j < ?k \<longrightarrow> exists (disk w) (candidate ?d (stem_of path) ?e j)"
    using first_free_occupied by blast
  have shape: "if exists (disk w) (watch_folder h @ [cat, name path])
               then ?dst = candidate ?d (stem_of path) ?e ?k
               else ?dst = watch_folder h @ [cat, name path]"
    by (simp add: destination_def resolve_eq cat)
  have low: "suffix_of path = [] \<Longrightarrow> ?e = []" by (simp add: lower_def)
  show ?thesis
    apply (rule exI [of _ "\<lparr>disk = f2, moved = moved w @ [(path, ?dst)],
             notified = (if on_file_moved h then notified w @ [(?dst, category_of (ext_map h) path)]
                         else notified w)\<rparr>"])
    apply (rule exI [of _ ?dst])
    using mv l2 shape k1 occ low
    by (auto simp: candidate_def)
qed

section \<open>What \<open>move_file\<close> does and returns\<close>

text \<open>
  Claim C5, as the code has it. For a regular file whose category folder exists or can
  be created in the watch folder, \<open>move_file\<close> takes the category from the extension
  index at the lowercased extension, with the literal \<open>Other\<close> when there is none, moves
  the file into \<open>watch_folder / category\<close>, calls the callback with the destination and
  the category when one is registered, and returns \<open>None\<close>.
\<close>

theorem move_file_returns_none:
  assumes src: "lookup (disk w) path = Some (File c)"
      and cat: "cat = (case ext_map h (lower (suffix_of path)) of Some x \<Rightarrow> x | None \<Rightarrow> ''Other'')"
      and nofile: "\<forall>c'. lookup (disk w) (watch_folder h @ [cat]) \<noteq> Some (File c')"
      and par: "lookup (disk w) (watch_folder h @ [cat]) = None
                  \<longrightarrow> lookup (disk w) (watch_folder h) = Some Dir"
  shows "\<exists>w' d. move_file h w path = (Inr None, w')
           \<and> parent d = watch_folder h @ [cat]
           \<and> lookup (disk w') d = Some (File c)
           \<and> lookup (disk w') path = None
           \<and> moved w' = moved w @ [(path, d)]
           \<and> notified w' = (if on_file_moved h then notified w @ [(d, cat)] else notified w)"
proof -
  let ?dst = "destination (ext_map h) (watch_folder h) (disk w) path"
  have cat': "cat = category_of (ext_map h) path" by (simp add: cat category_of_def)
  from move_file_file [OF src nofile [unfolded cat'] par [unfolded cat']] obtain f2 where
    mv: "move_file h w path =
           (Inr None, \<lparr>disk = f2, moved = moved w @ [(path, ?dst)],
             notified = (if on_file_moved h then notified w @ [(?dst, cat)] else notified w)\<rparr>)"
    and l2: "lookup f2 = (lookup (disk w))
              (watch_folder h @ [cat] \<mapsto> Dir, path := None, ?dst \<mapsto> File c)"
    unfolding cat' by blast
  have "\<not> exists (disk w) ?dst" by (simp add: destination_def resolve_free)
  with src have ne: "?dst \<noteq> path" by (auto simp: exists_def)
  have pd: "parent ?dst = watch_folder h @ [cat]"
    by (simp add: destination_def resolve_parent cat')
  show ?thesis
    apply (rule exI [of _ "\<lparr>disk = f2, moved = moved w @ [(path, ?dst)],
             notified = (if on_file_moved h then notified w @ [(?dst, cat)] else notified w)\<rparr>"])
    apply (rule exI [of _ ?dst])
    using mv l2 ne pd by simp
qed

theorem move_file_returns_none_witness:
  "lookup (disk ex_upper_world) [''D'', ''Photo.JPG''] = Some (File ''img'')
   \<and> ext_map ex_handler (lower (suffix_of [''D'', ''Photo.JPG''])) = Some ''Images''
   \<and> on_file_moved ex_handler
   \<and> (\<exists>w' d. move_file ex_handler ex_upper_world [''D'', ''Photo.JPG''] = (Inr None, w')
          \<and> parent d = [''D'', ''Images'']
          \<and> lookup (disk w') d = Some (File ''img'')
          \<and> lookup (disk w') [''D'', ''Photo.JPG''] = None
          \<and> notified w' = [(d, ''Images'')])"
proof -
  let ?q = "[''D'', ''Photo.JPG'']"
  have wf: "watch_folder ex_handler = [''D'']" and cb: "on_file_moved ex_handler"
    by (simp_all add: ex_handler_def)
  have em: "ext_map ex_handler (lower (suffix_of ?q)) = Some ''Images''"
    by (simp add: ex_handler_def eval_defs)
  then have cat: "''Images'' = (case ext_map ex_handler (lower (suffix_of ?q)) of
                                 Some x \<Rightarrow> x | None \<Rightarrow> ''Other'')"
    by simp
  have src: "lookup (disk ex_upper_world) ?q = Some (File ''img'')"
    by (simp add: ex_upper_world_def eval_defs)
  have nf: "\<forall>c'. lookup (disk ex_upper_world) (watch_folder ex_handler @ [''Images'']) \<noteq> Some (File c')"
    by (simp add: wf ex_upper_world_def eval_defs)
  have par: "lookup (disk ex_upper_world) (watch_folder ex_handler @ [''Images'']) = None
               \<longrightarrow> lookup (disk ex_upper_world) (watch_folder ex_handler) = Some Dir"
    by (simp add: wf ex_upper_world_def eval_defs)
  have nt: "notified ex_upper_world = []" by (simp add: ex_upper_world_def)
  from move_file_returns_none [OF src cat nf par]
  have "\<exists>w' d. move_file ex_handler ex_upper_world ?q = (Inr None, w')
          \<and> parent d = [''D'', ''Images'']
          \<and> lookup (disk w') d = Some (File ''img'')
          \<and> lookup (disk w') ?q = None
          \<and> notified w' = [(d, ''Images'')]"
    unfolding wf nt using cb by auto
  with src em cb show ?thesis by blast
qed

text \<open>
  \<open>move_file\<close> never returns the pair of destination and category; and on a path whose
  category folder name is taken by a regular file it raises and moves nothing.
\<close>

theorem move_file_returns_pair_counterexample:
  "\<not> (\<exists>d c. fst (move_file ex_handler ex_world [''D'', ''a.txt'']) = Inr (Some (d, c)))
   \<and> lookup (disk ex_blocked_world) [''D'', ''Other''] = Some (File ''x'')
   \<and> move_file ex_handler ex_blocked_world [''D'', ''Other''] = (Inl FileExistsError, ex_blocked_world)"
proof -
  have "fst (move_file ex_handler ex_world [''D'', ''a.txt'']) = Inr None"
    by (simp add: ex_handler_def ex_world_def move_file_def mkdir_exist_ok_def resolve_def
          shutil_move_def os_rename_def probe.simps Let_def eval_defs)
  moreover have "move_file ex_handler ex_blocked_world [''D'', ''Other'']
                   = (Inl FileExistsError, ex_blocked_world)"
    by (simp add: ex_handler_def ex_blocked_world_def move_file_def mkdir_exist_ok_def Let_def eval_defs)
  moreover have "lookup (disk ex_blocked_world) [''D'', ''Other''] = Some (File ''x'')"
    by (simp add: ex_blocked_world_def eval_defs)
  ultimately show ?thesis by simp
qed

section \<open>Facts about the tick\<close>

lemma move_file_moved:
  "move_file h w p = (r, w') \<Longrightarrow> \<exists>ms. moved w' = moved w @ ms \<and> fst ` set ms \<subseteq> {p}"
  by (auto simp: move_file_def Let_def split: sum.splits)

lemma process_loop_to_remove:
  "process_loop h now items tr w = (r, tr', w') \<Longrightarrow>
     \<exists>xs. tr' = tr @ xs
        \<and> prefix xs (map fst (filter (\<lambda>(p, ls). debounce h \<le> now - ls) items))
        \<and> (r = None \<longrightarrow> xs = map fst (filter (\<lambda>(p, ls). debounce h \<le> now - ls) items))"
proof (induction items arbitrary: tr w)
  case Nil
  then show ?case by simp
next
  case (Cons it items)
  obtain p ls where it: "it = (p, ls)" by (cases it)
  show ?case
  proof (cases "now - ls < debounce h")
    case True
    with Cons.prems it have "process_loop h now items tr w = (r, tr', w')" by simp
    from Cons.IH [OF this] True it show ?thesis by (simp add: not_le)
  next
    case False
    then have st: "debounce h \<le> now - ls" by simp
    show ?thesis
    proof (cases "exists (disk w) p")
      case False
      with Cons.prems it st have "process_loop h now items (tr @ [p]) w = (r, tr', w')"
        by (simp add: not_less)
      from Cons.IH [OF this] obtain xs where
        "tr' = (tr @ [p]) @ xs"
        "prefix xs (map fst (filter (\<lambda>(p, ls). debounce h \<le> now - ls) items))"
        "r = None \<longrightarrow> xs = map fst (filter (\<lambda>(p, ls). debounce h \<le> now - ls) items)"
        by blast
      with it st show ?thesis by (intro exI [of _ "p # xs"]) simp
    next
      case True
      obtain res w1 where mf: "move_file h w p = (res, w1)" by (cases "move_file h w p")
      show ?thesis
      proof (cases res)
        case (Inl err)
        with Cons.prems it st True mf have "r = Some err" "tr' = tr @ [p]"
          by (simp_all add: not_less)
        with it st show ?thesis by (intro exI [of _ "[p]"]) simp
      next
        case (Inr v)
        with Cons.prems it st True mf
        have "process_loop h now items (tr @ [p]) w1 = (r, tr', w')"
          by (simp add: not_less)
        from Cons.IH [OF this] obtain xs where
          "tr' = (tr @ [p]) @ xs"
          "prefix xs (map fst (filter (\<lambda>(p, ls). debounce h \<le> now - ls) items))"
          "r = None \<longrightarrow> xs = map fst (filter (\<lambda>(p, ls). debounce h \<le> now - ls) items)"
          by blast
        with it st show ?thesis by (intro exI [of _ "p # xs"]) simp
      qed
    qed
  qed
qed


lemma process_loop_moved:
  "process_loop h now items tr w = (r, tr', w') \<Longrightarrow>
     \<exists>ms. moved w' = moved w @ ms
        \<and> fst ` set ms \<subseteq> fst ` {x \<in> set items. debounce h \<le> now - snd x}"
proof (induction items arbitrary: tr w)
  case Nil
  then show ?case by simp
next
  case (Cons it items)
  obtain p ls where it: "it = (p, ls)" by (cases it)
  show ?case
  proof (cases "now - ls < debounce h \<or> \<not> exists (disk w) p")
    case True
    with Cons.prems it obtain tr1 where "process_loop h now items tr1 w = (r, tr', w')"
      by (auto simp: Let_def split: if_splits)
    from Cons.IH [OF this] obtain ms where
      a: "moved w' = moved w @ ms"
      and b: "fst ` set ms \<subseteq> fst ` {x \<in> set items. debounce h \<le> now - snd x}"
      by blast
    have "fst ` {x \<in> set items. debounce h \<le> now - snd x}
            \<subseteq> fst ` {x \<in> set (it # items). debounce h \<le> now - snd x}"
      by auto
    with a b show ?thesis by blast
  next
    case False
    then have st: "debounce h \<le> now - ls" and ex: "exists (disk w) p" by simp_all
    obtain res w1 where mf: "move_file h w p = (res, w1)" by (cases "move_file h w p")
    from move_file_moved [OF mf] obtain m1 where
      m1: "moved w1 = moved w @ m1" "fst ` set m1 \<subseteq> {p}" by blast
    show ?thesis
    proof (cases res)
      case (Inl err)
      with Cons.prems it st ex mf have "w' = w1" by (simp add: not_less)
      with m1 it st show ?thesis by (intro exI [of _ m1]) force
    next
      case (Inr v)
      with Cons.prems it st ex mf
      have "process_loop h now items (tr @ [p]) w1 = (r, tr', w')"
        by (simp add: not_less)
      from Cons.IH [OF this] obtain m2 where
        m2: "moved w' = moved w1 @ m2"
            "fst ` set m2 \<subseteq> fst ` {x \<in> set items. debounce h \<le> now - snd x}"
        by blast
      have "fst ` set (m1 @ m2) \<subseteq> fst ` {x \<in> set (it # items). debounce h \<le> now - snd x}"
      proof
        fix q assume "q \<in> fst ` set (m1 @ m2)"
        then have "q \<in> fst ` set m1 \<or> q \<in> fst ` set m2" by auto
        then show "q \<in> fst ` {x \<in> set (it # items). debounce h \<le> now - snd x}"
        proof
          assume "q \<in> fst ` set m1"
          with m1 have "q = p" by auto
          with it st show ?thesis by force
        next
          assume "q \<in> fst ` set m2"
          with m2 show ?thesis by auto
        qed
      qed
      with m1 m2 show ?thesis by (intro exI [of _ "m1 @ m2"]) simp
    qed
  qed
qed

lemma set_fold_delete:
  "set (fold AList.delete xs al) = {x \<in> set al. fst x \<notin> set xs}"
proof (induction xs arbitrary: al)
  case Nil
  show ?case by simp
next
  case (Cons k xs)
  have "set (AList.delete k al) = {x \<in> set al. fst x \<noteq> k}"
    by (auto simp: AList.delete_eq)
  with Cons show ?case by auto
qed

lemma distinct_fold_delete:
  "distinct (map fst al) \<Longrightarrow> distinct (map fst (fold AList.delete xs al))"
  by (induction xs arbitrary: al) (simp_all add: distinct_delete)

lemma attempted_props:
  assumes "process_pending h w now = (r, h', w')"
  shows "prefix (attempted h w now) (map fst (filter (\<lambda>(p, ls). debounce h \<le> now - ls) (pending h)))"
    and "r = Inr () \<Longrightarrow>
           attempted h w now = map fst (filter (\<lambda>(p, ls). debounce h \<le> now - ls) (pending h))"
    and "r = Inr () \<Longrightarrow> h' = h\<lparr>pending := fold AList.delete (attempted h w now) (pending h)\<rparr>"
    and "r \<noteq> Inr () \<Longrightarrow> h' = h"
    and "\<exists>ms. moved w' = moved w @ ms
           \<and> fst ` set ms \<subseteq> fst ` {x \<in> set (pending h). debounce h \<le> now - snd x}"
proof -
  obtain r0 tr' w1 where pl: "process_loop h now (pending h) [] w = (r0, tr', w1)"
    by (cases "process_loop h now (pending h) [] w") auto
  from process_loop_to_remove [OF pl] have
    pre: "prefix tr' (map fst (filter (\<lambda>(p, ls). debounce h \<le> now - ls) (pending h)))"
    and full: "r0 = None \<longrightarrow> tr' = map fst (filter (\<lambda>(p, ls). debounce h \<le> now - ls) (pending h))"
    by auto
  have att: "attempted h w now = tr'" by (simp add: attempted_def pl)
  from assms pl have r: "(r = Inr ()) = (r0 = None)" and w: "w' = w1"
    by (auto simp: process_pending_def split: option.splits)
  from pre att show "prefix (attempted h w now) (map fst (filter (\<lambda>(p, ls). debounce h \<le> now - ls) (pending h)))"
    by simp
  from full att r show "r = Inr () \<Longrightarrow>
           attempted h w now = map fst (filter (\<lambda>(p, ls). debounce h \<le> now - ls) (pending h))"
    by simp
  from assms pl att show "r = Inr () \<Longrightarrow> h' = h\<lparr>pending := fold AList.delete (attempted h w now) (pending h)\<rparr>"
    by (auto simp: process_pending_def split: option.splits)
  from assms pl show "r \<noteq> Inr () \<Longrightarrow> h' = h"
    by (auto simp: process_pending_def split: option.splits)
  from process_loop_moved [OF pl] w
  show "\<exists>ms. moved w' = moved w @ ms
           \<and> fst ` set ms \<subseteq> fst ` {x \<in> set (pending h). debounce h \<le> now - snd x}"
    by simp
qed

section \<open>Facts about runs\<close>

lemma on_created_pending:
  "pending (on_created h ev now) =
     (if accepts h ev then AList.update (src_path ev) now (pending h) else pending h)"
  by (simp add: on_created_def accepts_def Let_def)

lemma on_modified_pending:
  "pending (on_modified h ev now) =
     (if \<not> is_directory ev \<and> src_path ev \<in> fst ` set (pending h)
      then AList.update (src_path ev) now (pending h) else pending h)"
  by (simp add: on_modified_def Let_def)

lemma set_update_other:
  "k \<noteq> p \<Longrightarrow> ((p, v') \<in> set (AList.update k v al)) = ((p, v') \<in> set al)"
  by (induction al) auto

lemma set_update_same:
  "distinct (map fst al) \<Longrightarrow> ((k, v') \<in> set (AList.update k v al)) = (v' = v)"
  by (induction al) (auto simp: image_iff)

lemma step_fields:
  "step (h, w) a = (h', w') \<Longrightarrow>
     watch_folder h' = watch_folder h \<and> debounce h' = debounce h
     \<and> ext_map h' = ext_map h \<and> on_file_moved h' = on_file_moved h"
proof (cases a)
  case (Tick now)
  obtain r h1 w1 where pp: "process_pending h w now = (r, h1, w1)"
    by (cases "process_pending h w now")
  assume "step (h, w) a = (h', w')"
  with Tick pp have "h' = h1" by simp
  with attempted_props(3,4) [OF pp] show ?thesis by (cases "r = Inr ()") auto
qed (auto simp: on_created_def on_modified_def Let_def split: if_splits)

lemma step_distinct:
  assumes "step (h, w) a = (h', w')" and "distinct (map fst (pending h))"
  shows "distinct (map fst (pending h'))"
proof (cases a)
  case (Tick now)
  obtain r h1 w1 where pp: "process_pending h w now = (r, h1, w1)"
    by (cases "process_pending h w now")
  with Tick assms have "h' = h1" by simp
  with attempted_props(3,4) [OF pp] assms(2) show ?thesis
    by (cases "r = Inr ()") (auto simp: distinct_fold_delete)
next
  case (Created ev now)
  with assms show ?thesis by (auto simp: on_created_pending distinct_update)
next
  case (Modified ev now)
  with assms show ?thesis by (auto simp: on_modified_pending distinct_update)
next
  case (FsChange f)
  with assms show ?thesis by auto
qed

lemma run_snoc: "run s (tr @ [a]) = step (run s tr) a"
  by (simp add: run_def)

lemma run_append: "run s (xs @ ys) = run (run s xs) ys"
  by (simp add: run_def)

lemma run_invariants:
  assumes "run (h0, w0) tr = (h, w)"
  shows "watch_folder h = watch_folder h0 \<and> debounce h = debounce h0
         \<and> ext_map h = ext_map h0 \<and> on_file_moved h = on_file_moved h0
         \<and> (distinct (map fst (pending h0)) \<longrightarrow> distinct (map fst (pending h)))"
  using assms
proof (induction tr arbitrary: h w rule: rev_induct)
  case Nil
  then show ?case by (simp add: run_def)
next
  case (snoc a tr)
  obtain h1 w1 where r1: "run (h0, w0) tr = (h1, w1)" by (cases "run (h0, w0) tr")
  with snoc.prems have st: "step (h1, w1) a = (h, w)" by (simp add: run_snoc)
  from snoc.IH [OF r1] step_fields [OF st] step_distinct [OF st] show ?case by simp
qed

lemma step_entries_untouched:
  assumes "step (h, w) a = (h', w')" and "\<not> concerns p a" and "(p, ls) \<in> set (pending h')"
  shows "(p, ls) \<in> set (pending h)"
proof (cases a)
  case (Tick now)
  obtain r h1 w1 where pp: "process_pending h w now = (r, h1, w1)"
    by (cases "process_pending h w now")
  with Tick assms have "h' = h1" by simp
  with attempted_props(3,4) [OF pp] assms(3) show ?thesis
    by (cases "r = Inr ()") (auto simp: set_fold_delete)
next
  case (Created ev now)
  with assms show ?thesis
    by (auto simp: on_created_pending concerns_def set_update_other split: if_splits)
next
  case (Modified ev now)
  with assms show ?thesis
    by (auto simp: on_modified_pending concerns_def set_update_other split: if_splits)
next
  case (FsChange f)
  with assms show ?thesis by auto
qed

lemma run_entries_untouched:
  assumes "run (h, w) tr = (h', w')" and "\<forall>a\<in>set tr. \<not> concerns p a"
      and "(p, ls) \<in> set (pending h')"
  shows "(p, ls) \<in> set (pending h)"
  using assms
proof (induction tr arbitrary: h' w' rule: rev_induct)
  case Nil
  then show ?case by (simp add: run_def)
next
  case (snoc a tr)
  obtain h1 w1 where r1: "run (h, w) tr = (h1, w1)" by (cases "run (h, w) tr")
  with snoc.prems have st: "step (h1, w1) a = (h', w')" by (simp add: run_snoc)
  from snoc.prems have "\<not> concerns p a" by simp
  from step_entries_untouched [OF st this snoc.prems(3)] have "(p, ls) \<in> set (pending h1)" .
  with snoc.IH [OF r1] snoc.prems(2) show ?case by simp
qed

section \<open>Debounce\<close>

lemma attempted_stabilized:
  assumes "process_pending h w now = (r, h', w')" and "p \<in> set (attempted h w now)"
  shows "\<exists>ls. (p, ls) \<in> set (pending h) \<and> debounce h \<le> now - ls"
proof -
  from attempted_props(1) [OF assms(1)] assms(2)
  have "p \<in> set (map fst (filter (\<lambda>(p, ls). debounce h \<le> now - ls) (pending h)))"
    using set_mono_prefix by blast
  then show ?thesis by auto
qed

lemma created_entry:
  assumes inv: "distinct (map fst (pending h0))"
      and reach: "run (h0, w0) tr = (h, w)"
      and i: "i < length tr" and ci: "tr ! i = Created ev created" and acc: "accepts h0 ev"
      and quiet: "\<forall>j. i < j \<and> j < length tr \<longrightarrow> \<not> concerns (src_path ev) (tr ! j)"
      and entry: "(src_path ev, ls) \<in> set (pending h)"
  shows "ls = created"
proof -
  obtain h1 w1 where r1: "run (h0, w0) (take i tr) = (h1, w1)"
    by (cases "run (h0, w0) (take i tr)")
  from run_invariants [OF r1] inv acc
  have d1: "distinct (map fst (pending h1))" and a1: "accepts h1 ev"
    by (simp_all add: accepts_def)
  have tr: "tr = take i tr @ [Created ev created] @ drop (Suc i) tr"
    using i ci id_take_nth_drop by fastforce
  have "run (h0, w0) tr = run (step (h1, w1) (Created ev created)) (drop (Suc i) tr)"
    using r1 by (subst tr) (simp add: run_def)
  with reach have r2: "run (on_created h1 ev created, w1) (drop (Suc i) tr) = (h, w)" by simp
  have "\<forall>a\<in>set (drop (Suc i) tr). \<not> concerns (src_path ev) a"
  proof
    fix a assume "a \<in> set (drop (Suc i) tr)"
    then obtain k where "k < length (drop (Suc i) tr)" "a = drop (Suc i) tr ! k"
      by (auto simp: in_set_conv_nth)
    then have "a = tr ! (Suc i + k)" "Suc i + k < length tr" by auto
    with quiet show "\<not> concerns (src_path ev) a" by simp
  qed
  from run_entries_untouched [OF r2 this entry]
  have "(src_path ev, ls) \<in> set (pending (on_created h1 ev created))" .
  with a1 d1 show ?thesis by (simp add: on_created_pending set_update_same)
qed

text \<open>
  Claim C1, as the code has it. In a state reached by any run from a handler whose
  pending dictionary has distinct keys, for every entry \<open>(path, lastSeen)\<close>: a tick at
  time \<open>now\<close> sets out to process the path only if \<open>now - lastSeen \<ge> debounce\<close>; a tick that
  completes without an exception sets out to process it whenever
  \<open>now - lastSeen \<ge> debounce\<close>; and an entry with \<open>now - lastSeen < debounce\<close> stays in
  \<open>pending\<close> with its timestamp and is not moved. A file whose creation event was
  accepted at time \<open>created\<close> and that no later event concerns is neither processed nor
  moved by a tick with \<open>now - created < debounce\<close>.
\<close>

theorem tick_debounce:
  assumes inv: "distinct (map fst (pending h0))"
      and reach: "run (h0, w0) tr = (h, w)"
      and tick: "process_pending h w now = (r, h', w')"
  shows "(\<forall>path lastSeen. (path, lastSeen) \<in> set (pending h) \<longrightarrow>
            (path \<in> set (attempted h w now) \<longrightarrow> debounce h \<le> now - lastSeen)
          \<and> (r = Inr () \<and> debounce h \<le> now - lastSeen \<longrightarrow> path \<in> set (attempted h w now))
          \<and> (now - lastSeen < debounce h \<longrightarrow>
               (path, lastSeen) \<in> set (pending h')
               \<and> (\<exists>ms. moved w' = moved w @ ms \<and> path \<notin> fst ` set ms)))
       \<and> (\<forall>i ev created.
             i < length tr \<and> tr ! i = Created ev created \<and> accepts h0 ev
             \<and> (\<forall>j. i < j \<and> j < length tr \<longrightarrow> \<not> concerns (src_path ev) (tr ! j))
             \<and> now - created < debounce h0
           \<longrightarrow> src_path ev \<notin> set (attempted h w now)
               \<and> (\<exists>ms. moved w' = moved w @ ms \<and> src_path ev \<notin> fst ` set ms))"
proof -
  from run_invariants [OF reach] inv
  have dist: "distinct (map fst (pending h))" and deb: "debounce h = debounce h0" by simp_all
  from attempted_props(5) [OF tick] obtain ms where
    ms: "moved w' = moved w @ ms"
        "fst ` set ms \<subseteq> fst ` {x \<in> set (pending h). debounce h \<le> now - snd x}"
    by blast
  have first: "(path \<in> set (attempted h w now) \<longrightarrow> debounce h \<le> now - lastSeen)
          \<and> (r = Inr () \<and> debounce h \<le> now - lastSeen \<longrightarrow> path \<in> set (attempted h w now))
          \<and> (now - lastSeen < debounce h \<longrightarrow>
               (path, lastSeen) \<in> set (pending h')
               \<and> (\<exists>ms. moved w' = moved w @ ms \<and> path \<notin> fst ` set ms))"
    if entry: "(path, lastSeen) \<in> set (pending h)" for path lastSeen
  proof -
    have uniq: "ls = lastSeen" if "(path, ls) \<in> set (pending h)" for ls
      using dist that entry by (rule eq_key_imp_eq_value)
    have a: "debounce h \<le> now - lastSeen" if "path \<in> set (attempted h w now)"
      using attempted_stabilized [OF tick that] uniq by auto
    have b: "path \<in> set (attempted h w now)" if "r = Inr ()" "debounce h \<le> now - lastSeen"
    proof -
      from entry that(2)
      have "path \<in> set (map fst (filter (\<lambda>(p, ls). debounce h \<le> now - ls) (pending h)))"
        by force
      with attempted_props(2) [OF tick that(1)] show ?thesis by simp
    qed
    have c: "(path, lastSeen) \<in> set (pending h') \<and> (\<exists>ms. moved w' = moved w @ ms \<and> path \<notin> fst ` set ms)"
      if q: "now - lastSeen < debounce h"
    proof -
      from a q have na: "path \<notin> set (attempted h w now)" by auto
      have keep: "(path, lastSeen) \<in> set (pending h')"
      proof (cases "r = Inr ()")
        case True
        from attempted_props(3) [OF tick True] entry na show ?thesis
          by (simp add: set_fold_delete)
      next
        case False
        from attempted_props(4) [OF tick False] entry show ?thesis by simp
      qed
      have "path \<notin> fst ` set ms"
      proof
        assume "path \<in> fst ` set ms"
        with ms(2) obtain ls where "(path, ls) \<in> set (pending h)" "debounce h \<le> now - ls"
          by auto
        with uniq q show False by auto
      qed
      with keep ms(1) show ?thesis by blast
    qed
    from a b c show ?thesis by blast
  qed
  have second: "src_path ev \<notin> set (attempted h w now)
               \<and> (\<exists>ms. moved w' = moved w @ ms \<and> src_path ev \<notin> fst ` set ms)"
    if i: "i < length tr" and ci: "tr ! i = Created ev created" and acc: "accepts h0 ev"
      and quiet: "\<forall>j. i < j \<and> j < length tr \<longrightarrow> \<not> concerns (src_path ev) (tr ! j)"
      and early: "now - created < debounce h0"
    for i ev created
  proof -
    have only: "ls = created" if "(src_path ev, ls) \<in> set (pending h)" for ls
      using created_entry [OF inv reach i ci acc quiet that] .
    have na: "src_path ev \<notin> set (attempted h w now)"
    proof
      assume "src_path ev \<in> set (attempted h w now)"
      from attempted_stabilized [OF tick this] only early deb show False by auto
    qed
    have "src_path ev \<notin> fst ` set ms"
    proof
      assume "src_path ev \<in> fst ` set ms"
      with ms(2) obtain ls where "(src_path ev, ls) \<in> set (pending h)" "debounce h \<le> now - ls"
        by auto
      with only early deb show False by auto
    qed
    with na ms(1) show ?thesis by blast
  qed
  from first second show ?thesis by blast
qed


theorem tick_debounce_witness:
  "distinct (map fst (pending ex_handler))
   \<and> accepts ex_handler ex_file_event
   \<and> (11::real) - 10 < debounce ex_handler
   \<and> run (ex_handler, ex_world) [Created ex_file_event 10]
        = (on_created ex_handler ex_file_event 10, ex_world)
   \<and> [''D'', ''a.txt''] \<notin> set (attempted (on_created ex_handler ex_file_event 10) ex_world 11)
   \<and> ([''D'', ''a.txt''], 10)
        \<in> set (pending (fst (snd (process_pending (on_created ex_handler ex_file_event 10) ex_world 11))))"
proof -
  let ?h = "on_created ex_handler ex_file_event 10"
  let ?tr = "[Created ex_file_event 10]"
  obtain r h' w' where tick: "process_pending ?h ex_world 11 = (r, h', w')"
    by (cases "process_pending ?h ex_world 11")
  have inv: "distinct (map fst (pending ex_handler))" by (simp add: ex_handler_def)
  have acc: "accepts ex_handler ex_file_event"
    by (simp add: accepts_def ex_handler_def ex_file_event_def eval_defs)
  have early: "(11::real) - 10 < debounce ex_handler" by (simp add: ex_handler_def)
  have reach: "run (ex_handler, ex_world) ?tr = (?h, ex_world)" by (simp add: run_def)
  have pend: "pending ?h = [([''D'', ''a.txt''], 10)]"
    using acc by (simp add: on_created_pending ex_handler_def ex_file_event_def)
  have deb: "debounce ?h = debounce ex_handler"
    by (simp add: on_created_def Let_def)
  have sp: "src_path ex_file_event = [''D'', ''a.txt'']" by (simp add: ex_file_event_def)
  note t = tick_debounce [OF inv reach tick]
  from t have "0 < length ?tr \<and> ?tr ! 0 = Created ex_file_event 10 \<and> accepts ex_handler ex_file_event
      \<and> (\<forall>j. 0 < j \<and> j < length ?tr \<longrightarrow> \<not> concerns (src_path ex_file_event) (?tr ! j))
      \<and> 11 - 10 < debounce ex_handler
      \<longrightarrow> src_path ex_file_event \<notin> set (attempted ?h ex_world 11)"
    by blast
  with acc early have na: "[''D'', ''a.txt''] \<notin> set (attempted ?h ex_world 11)"
    by (simp add: sp)
  from t have "([''D'', ''a.txt''], 10) \<in> set (pending ?h) \<longrightarrow>
                 (11 - 10 < debounce ?h \<longrightarrow> ([''D'', ''a.txt''], 10) \<in> set (pending h'))"
    by blast
  with pend early deb have "([''D'', ''a.txt''], 10) \<in> set (pending h')" by simp
  with tick inv acc early reach na show ?thesis by simp
qed

text \<open>
  A tick that an exception cuts short leaves later entries alone even when they have
  stabilized: here the first entry is a regular file named \<open>Other\<close>, for which
  \<open>mkdir\<close> raises, and the second entry is never looked at.
\<close>

theorem tick_skips_stabilized_counterexample:
  "run (ex_handler, ex_blocked_world) [Created ex_other_event 0, Created ex_b_event 0]
     = (ex_blocked_handler, ex_blocked_world)
   \<and> ([''D'', ''b.txt''], 0) \<in> set (pending ex_blocked_handler)
   \<and> debounce ex_blocked_handler \<le> 5 - 0
   \<and> [''D'', ''b.txt''] \<notin> set (attempted ex_blocked_handler ex_blocked_world 5)"
proof -
  have "run (ex_handler, ex_blocked_world) [Created ex_other_event 0, Created ex_b_event 0]
          = (ex_blocked_handler, ex_blocked_world)"
    by (simp add: run_def on_created_def ex_handler_def ex_blocked_handler_def ex_other_event_def
          ex_b_event_def Let_def eval_defs)
  moreover have "attempted ex_blocked_handler ex_blocked_world 5 = [[''D'', ''Other'']]"
    by (simp add: attempted_def ex_blocked_handler_def ex_handler_def ex_blocked_world_def
          move_file_def mkdir_exist_ok_def Let_def eval_defs)
  ultimately show ?thesis by (simp add: ex_blocked_handler_def ex_handler_def)
qed

section \<open>Removal from the pending dictionary\<close>

lemma process_loop_all_missing:
  "\<forall>(p, ls)\<in>set items. debounce h \<le> now - ls \<longrightarrow> \<not> exists (disk w) p \<Longrightarrow>
     \<exists>tr'. process_loop h now items tr w = (None, tr', w)"
  by (induction items arbitrary: tr) (auto simp: Let_def not_less)

text \<open>
  Claim C3, as the code has it. A tick that completes without an exception has set
  out to process every entry whose quiet time reached the debounce window and has
  removed each of them from \<open>pending\<close>, whether the file was moved or was missing. A
  tick that an exception cuts short returns the handler as it was. Stabilized
  entries whose file no longer exists are skipped silently: when all of them are
  missing the tick completes and the world is unchanged.
\<close>

theorem tick_removes_stabilized:
  assumes tick: "process_pending h w now = (r, h', w')"
  shows "(r = Inr () \<longrightarrow>
            (\<forall>path lastSeen. (path, lastSeen) \<in> set (pending h) \<and> debounce h \<le> now - lastSeen
               \<longrightarrow> path \<in> set (attempted h w now) \<and> path \<notin> fst ` set (pending h')))
       \<and> (r \<noteq> Inr () \<longrightarrow> h' = h)
       \<and> ((\<forall>(path, lastSeen)\<in>set (pending h).
              debounce h \<le> now - lastSeen \<longrightarrow> \<not> exists (disk w) path)
            \<longrightarrow> r = Inr () \<and> w' = w)"
proof -
  have a: "path \<in> set (attempted h w now) \<and> path \<notin> fst ` set (pending h')"
    if ok: "r = Inr ()" and entry: "(path, lastSeen) \<in> set (pending h)"
      and st: "debounce h \<le> now - lastSeen" for path lastSeen
  proof -
    from entry st
    have "path \<in> set (map fst (filter (\<lambda>(p, ls). debounce h \<le> now - ls) (pending h)))"
      by force
    with attempted_props(2) [OF tick ok] have att: "path \<in> set (attempted h w now)" by simp
    with attempted_props(3) [OF tick ok] show ?thesis by (auto simp: set_fold_delete)
  qed
  have b: "r \<noteq> Inr () \<longrightarrow> h' = h" using attempted_props(4) [OF tick] by blast
  have c: "r = Inr () \<and> w' = w"
    if "\<forall>(path, lastSeen)\<in>set (pending h). debounce h \<le> now - lastSeen \<longrightarrow> \<not> exists (disk w) path"
  proof -
    from process_loop_all_missing [OF that] obtain tr'
      where "process_loop h now (pending h) [] w = (None, tr', w)" by blast
    with tick show ?thesis by (simp add: process_pending_def)
  qed
  from a b c show ?thesis by blast
qed

theorem tick_removes_stabilized_witness:
  "pending ex_gone_handler = [([''D'', ''gone.txt''], 0)]
   \<and> \<not> exists (disk ex_world) [''D'', ''gone.txt'']
   \<and> debounce ex_gone_handler \<le> 5 - 0
   \<and> fst (process_pending ex_gone_handler ex_world 5) = Inr ()
   \<and> snd (snd (process_pending ex_gone_handler ex_world 5)) = ex_world
   \<and> [''D'', ''gone.txt''] \<notin> fst ` set (pending (fst (snd (process_pending ex_gone_handler ex_world 5))))"
proof -
  obtain r h' w' where tick: "process_pending ex_gone_handler ex_world 5 = (r, h', w')"
    by (cases "process_pending ex_gone_handler ex_world 5")
  have missing: "\<forall>(path, lastSeen)\<in>set (pending ex_gone_handler).
      debounce ex_gone_handler \<le> 5 - lastSeen \<longrightarrow> \<not> exists (disk ex_world) path"
    by (simp add: ex_gone_handler_def ex_world_def eval_defs)
  have entry: "([''D'', ''gone.txt''], 0) \<in> set (pending ex_gone_handler)"
    and st: "debounce ex_gone_handler \<le> 5 - 0"
    by (simp_all add: ex_gone_handler_def ex_handler_def)
  note t = tick_removes_stabilized [OF tick]
  from t missing have ok: "r = Inr ()" and same: "w' = ex_world" by blast+
  from t ok entry st have "[''D'', ''gone.txt''] \<notin> fst ` set (pending h')" by blast
  moreover have "pending ex_gone_handler = [([''D'', ''gone.txt''], 0)]"
    by (simp add: ex_gone_handler_def)
  moreover have "\<not> exists (disk ex_world) [''D'', ''gone.txt'']"
    by (simp add: ex_world_def eval_defs)
  ultimately show ?thesis using tick st ok same by simp
qed

text \<open>
  When \<open>move_file\<close> raises, the stabilized entry is still pending after the tick.
\<close>

theorem tick_keeps_failed_entry_counterexample:
  "([''D'', ''Other''], 0) \<in> set (pending ex_blocked_handler)
   \<and> debounce ex_blocked_handler \<le> 5 - 0
   \<and> exists (disk ex_blocked_world) [''D'', ''Other'']
   \<and> process_pending ex_blocked_handler ex_blocked_world 5
        = (Inl FileExistsError, ex_blocked_handler, ex_blocked_world)"
  by (simp add: process_pending_def ex_blocked_handler_def ex_handler_def ex_blocked_world_def
        move_file_def mkdir_exist_ok_def Let_def eval_defs)

section \<open>The pending dictionary along a run\<close>

lemma keys_on_created:
  "fst ` set (pending (on_created h ev now)) =
     (if accepts h ev then insert (src_path ev) (fst ` set (pending h))
      else fst ` set (pending h))"
  by (simp add: on_created_pending dom_update)

lemma keys_on_modified:
  "fst ` set (pending (on_modified h ev now)) = fst ` set (pending h)"
  by (auto simp: on_modified_pending dom_update)

lemma step_keys:
  assumes st: "step (h1, w1) a = (h, w)"
  shows "(path \<in> fst ` set (pending h)) =
           ((case a of Created ev t \<Rightarrow> src_path ev = path \<and> accepts h1 ev | _ \<Rightarrow> False)
            \<or> (path \<in> fst ` set (pending h1) \<and> \<not> removed_by (h1, w1) a path))"
proof (cases a)
  case (Created ev now)
  with st have "h = on_created h1 ev now" by auto
  with Created show ?thesis
    by (auto simp: keys_on_created removed_by_def)
next
  case (Modified ev now)
  with st have "h = on_modified h1 ev now" by auto
  with Modified show ?thesis
    by (simp add: keys_on_modified removed_by_def)
next
  case (FsChange f)
  with st show ?thesis by (auto simp: removed_by_def)
next
  case (Tick now)
  obtain r h2 w2 where pp: "process_pending h1 w1 now = (r, h2, w2)"
    by (cases "process_pending h1 w1 now")
  with Tick st have h: "h = h2" by simp
  show ?thesis
  proof (cases "r = Inr ()")
    case True
    have "(path \<in> set (attempted h1 w1 now)) =
          (\<exists>(p, ls)\<in>set (pending h1). p = path \<and> debounce h1 \<le> now - ls)"
      unfolding attempted_props(2) [OF pp True] by force
    moreover have "(path \<in> fst ` set (pending h)) =
          (path \<in> fst ` set (pending h1) \<and> path \<notin> set (attempted h1 w1 now))"
      unfolding h attempted_props(3) [OF pp True] by (force simp: set_fold_delete)
    ultimately show ?thesis using Tick pp True by (simp add: removed_by_def)
  next
    case False
    with attempted_props(4) [OF pp False] Tick pp h show ?thesis
      by (simp add: removed_by_def)
  qed
qed

lemma pending_history:
  assumes init: "pending h0 = []" and reach: "run (h0, w0) tr = (h, w)"
  shows "(path \<in> fst ` set (pending h)) =
           (\<exists>i<length tr. created_at h0 tr path i
              \<and> (\<forall>j. i < j \<and> j < length tr \<longrightarrow> \<not> removed_at (h0, w0) tr path j))"
  using reach
proof (induction tr arbitrary: h w rule: rev_induct)
  case Nil
  with init show ?case by (simp add: run_def)
next
  case (snoc a tr)
  let ?n = "length tr"
  obtain h1 w1 where r1: "run (h0, w0) tr = (h1, w1)" by (cases "run (h0, w0) tr")
  with snoc.prems have st: "step (h1, w1) a = (h, w)" by (simp add: run_snoc)
  from run_invariants [OF r1] have wf: "accepts h1 = accepts h0"
    by (simp add: accepts_def fun_eq_iff)
  have C: "created_at h0 (tr @ [a]) path i = created_at h0 tr path i" if "i < ?n" for i
    using that by (simp add: created_at_def nth_append)
  have R: "removed_at (h0, w0) (tr @ [a]) path j = removed_at (h0, w0) tr path j" if "j < ?n" for j
    using that by (simp add: removed_at_def nth_append)
  have Cn: "created_at h0 (tr @ [a]) path ?n =
            (case a of Created ev t \<Rightarrow> src_path ev = path \<and> accepts h1 ev | _ \<Rightarrow> False)"
    by (cases a) (simp_all add: created_at_def wf)
  have Rn: "removed_at (h0, w0) (tr @ [a]) path ?n = removed_by (h1, w1) a path"
    by (simp add: removed_at_def r1)
  have "(\<exists>i<length (tr @ [a]). created_at h0 (tr @ [a]) path i
              \<and> (\<forall>j. i < j \<and> j < length (tr @ [a]) \<longrightarrow> \<not> removed_at (h0, w0) (tr @ [a]) path j))
        = (created_at h0 (tr @ [a]) path ?n
           \<or> ((\<exists>i<?n. created_at h0 tr path i
                  \<and> (\<forall>j. i < j \<and> j < ?n \<longrightarrow> \<not> removed_at (h0, w0) tr path j))
               \<and> \<not> removed_at (h0, w0) (tr @ [a]) path ?n))"
    (is "?L = (?A \<or> (?B \<and> ?N))")
  proof
    assume ?L
    then obtain i where i: "i < Suc ?n" "created_at h0 (tr @ [a]) path i"
      and q: "\<forall>j. i < j \<and> j < Suc ?n \<longrightarrow> \<not> removed_at (h0, w0) (tr @ [a]) path j"
      by auto
    show "?A \<or> (?B \<and> ?N)"
    proof (cases "i = ?n")
      case True
      with i show ?thesis by simp
    next
      case False
      with i have lt: "i < ?n" by simp
      with i have "created_at h0 tr path i" by (simp add: C)
      moreover have "\<forall>j. i < j \<and> j < ?n \<longrightarrow> \<not> removed_at (h0, w0) tr path j"
        using q R by (metis less_Suc_eq)
      moreover from q lt have ?N by simp
      ultimately show ?thesis using lt by blast
    qed
  next
    assume "?A \<or> (?B \<and> ?N)"
    then show ?L
    proof
      assume ?A
      then show ?L by (intro exI [of _ ?n]) auto
    next
      assume bn: "?B \<and> ?N"
      then obtain i where i: "i < ?n" "created_at h0 tr path i"
        and q: "\<forall>j. i < j \<and> j < ?n \<longrightarrow> \<not> removed_at (h0, w0) tr path j"
        by blast
      have "\<forall>j. i < j \<and> j < Suc ?n \<longrightarrow> \<not> removed_at (h0, w0) (tr @ [a]) path j"
        using q R bn by (metis less_Suc_eq)
      with i show ?L by (intro exI [of _ i]) (simp add: C)
    qed
  qed
  also have "\<dots> = (path \<in> fst ` set (pending h))"
    unfolding step_keys [OF st] Cn Rn snoc.IH [OF r1] ..
  finally show ?case ..
qed


text \<open>
  Claim C4. In every state reached by a run from a handler with nothing pending, a
  path is a key of \<open>pending\<close> exactly when the run holds a creation event for it that
  is not for a directory, has the watch folder as parent and a name not starting with
  a dot, and no later tick of the run has removed it on finding it stabilized. In
  particular \<open>on_created\<close> ignores paths with another parent and hidden names, and
  \<open>on_modified\<close> never changes the set of keys: it returns the handler unchanged for
  a path that is not pending, and sets the timestamp of a pending one.
\<close>

theorem pending_iff_created_not_removed:
  assumes init: "pending h0 = []" and reach: "run (h0, w0) tr = (h, w)"
  shows "((path \<in> fst ` set (pending h)) =
            (\<exists>i<length tr. created_at h0 tr path i
               \<and> (\<forall>j. i < j \<and> j < length tr \<longrightarrow> \<not> removed_at (h0, w0) tr path j)))
       \<and> (parent (src_path ev) \<noteq> watch_folder h \<or> startswith_dot (name (src_path ev))
            \<longrightarrow> on_created h ev now = h)
       \<and> fst ` set (pending (on_modified h ev now)) = fst ` set (pending h)
       \<and> (src_path ev \<notin> fst ` set (pending h) \<longrightarrow> on_modified h ev now = h)
       \<and> (\<not> is_directory ev \<and> src_path ev \<in> fst ` set (pending h)
            \<longrightarrow> map_of (pending (on_modified h ev now)) (src_path ev) = Some now)"
proof -
  have "parent (src_path ev) \<noteq> watch_folder h \<or> startswith_dot (name (src_path ev))
            \<longrightarrow> on_created h ev now = h"
    by (auto simp: on_created_def Let_def)
  moreover have "src_path ev \<notin> fst ` set (pending h) \<longrightarrow> on_modified h ev now = h"
    by (simp add: on_modified_def Let_def)
  moreover have "\<not> is_directory ev \<and> src_path ev \<in> fst ` set (pending h)
            \<longrightarrow> map_of (pending (on_modified h ev now)) (src_path ev) = Some now"
    by (simp add: on_modified_pending update_conv')
  ultimately show ?thesis
    using pending_history [OF init reach, of path] keys_on_modified [of h ev now] by blast
qed

theorem pending_iff_created_not_removed_witness:
  "pending ex_handler = []
   \<and> run (ex_handler, ex_world) ex_trace = (ex_handler\<lparr>pending := [([''D'', ''a.txt''], 10)]\<rparr>, ex_world)
   \<and> (\<exists>i<length ex_trace. created_at ex_handler ex_trace [''D'', ''a.txt''] i)
   \<and> startswith_dot (name (src_path ex_hidden_event))
   \<and> on_created ex_handler ex_hidden_event 3 = ex_handler
   \<and> on_modified ex_handler ex_file_event 3 = ex_handler"
proof -
  let ?h = "ex_handler\<lparr>pending := [([''D'', ''a.txt''], 10)]\<rparr>"
  have init: "pending ex_handler = []" by (simp add: ex_handler_def)
  have reach: "run (ex_handler, ex_world) ex_trace = (?h, ex_world)"
    by (simp add: run_def ex_trace_def on_created_def on_modified_def process_pending_def
          ex_handler_def ex_file_event_def ex_hidden_event_def ex_b_event_def Let_def eval_defs)
  have hid: "startswith_dot (name (src_path ex_hidden_event))"
    by (simp add: ex_hidden_event_def eval_defs)
  have key: "[''D'', ''a.txt''] \<in> fst ` set (pending ?h)" by simp
  have nokey: "src_path ex_file_event \<notin> fst ` set (pending ex_handler)" by (simp add: init)
  note t = pending_iff_created_not_removed [OF init reach, of "[''D'', ''a.txt'']"]
  from t key have "\<exists>i<length ex_trace. created_at ex_handler ex_trace [''D'', ''a.txt''] i"
    by blast
  moreover
  from pending_iff_created_not_removed [OF init, of ex_world "[]" ex_handler ex_world _ ex_hidden_event 3] hid
  have "on_created ex_handler ex_hidden_event 3 = ex_handler" by (simp add: run_def)
  moreover
  from pending_iff_created_not_removed [OF init, of ex_world "[]" ex_handler ex_world _ ex_file_event 3] nokey
  have "on_modified ex_handler ex_file_event 3 = ex_handler" by (simp add: run_def)
  ultimately show ?thesis using init reach hid by blast
qed

section \<open>A file that keeps being modified\<close>

lemma unstabilized_kept:
  assumes dist: "distinct (map fst (pending h))"
      and entry: "(p, ls) \<in> set (pending h)"
      and tick: "process_pending h w now = (r, h', w')"
      and q: "now - ls < debounce h"
  shows "(p, ls) \<in> set (pending h') \<and> (\<exists>ms. moved w' = moved w @ ms \<and> p \<notin> fst ` set ms)"
proof -
  have uniq: "ls' = ls" if "(p, ls') \<in> set (pending h)" for ls'
    using dist that entry by (rule eq_key_imp_eq_value)
  have na: "p \<notin> set (attempted h w now)"
  proof
    assume "p \<in> set (attempted h w now)"
    from attempted_stabilized [OF tick this] uniq q show False by auto
  qed
  have keep: "(p, ls) \<in> set (pending h')"
  proof (cases "r = Inr ()")
    case True
    from attempted_props(3) [OF tick True] entry na show ?thesis
      by (simp add: set_fold_delete)
  next
    case False
    from attempted_props(4) [OF tick False] entry show ?thesis by simp
  qed
  from attempted_props(5) [OF tick] obtain ms where
    ms: "moved w' = moved w @ ms"
        "fst ` set ms \<subseteq> fst ` {x \<in> set (pending h). debounce h \<le> now - snd x}"
    by blast
  have "p \<notin> fst ` set ms"
  proof
    assume "p \<in> fst ` set ms"
    with ms(2) obtain ls' where "(p, ls') \<in> set (pending h)" "debounce h \<le> now - ls'"
      by auto
    with uniq q show False by auto
  qed
  with keep ms(1) show ?thesis by blast
qed

lemma next_refresh_close:
  "chronological lo tr \<Longrightarrow> gaps_below d p seen tr \<Longrightarrow> list_ex (is_refresh p) tr
     \<Longrightarrow> lo - seen < d"
proof (induction tr arbitrary: lo)
  case Nil
  then show ?case by simp
next
  case (Cons a tr)
  show ?case
  proof (cases "is_refresh p a")
    case True
    with Cons.prems show ?thesis by (auto split: option.splits)
  next
    case False
    with Cons.prems have g: "gaps_below d p seen tr" and e: "list_ex (is_refresh p) tr"
      by simp_all
    show ?thesis
    proof (cases "time_of a")
      case None
      with Cons.prems have "chronological lo tr" by simp
      from Cons.IH [OF this g e] show ?thesis .
    next
      case (Some t)
      with Cons.prems have "lo \<le> t" "chronological t tr" by simp_all
      with Cons.IH [OF _ g e, of t] show ?thesis by simp
    qed
  qed
qed


lemma refreshed_step:
  assumes st: "step (h0, w0) a = (h1, w1)"
      and dist: "distinct (map fst (pending h0))"
      and entry: "(p, ts) \<in> set (pending h0)"
      and le: "seen \<le> ts" "seen \<le> lo"
      and chrono: "chronological lo (a # tr)"
      and gaps: "gaps_below (debounce h0) p seen (a # tr)"
      and follows: "refresh_follows p (a # tr)"
  shows "\<exists>ts' seen' lo'. (p, ts') \<in> set (pending h1) \<and> seen' \<le> ts' \<and> seen' \<le> lo'
           \<and> chronological lo' tr \<and> gaps_below (debounce h0) p seen' tr
           \<and> (\<exists>ms. moved w1 = moved w0 @ ms \<and> p \<notin> fst ` set ms)"
proof (cases a)
  case (FsChange f)
  with st have "h1 = h0" "moved w1 = moved w0 @ []" by auto
  with FsChange entry le chrono gaps show ?thesis
    by (intro exI [of _ ts] exI [of _ seen] exI [of _ lo])
       (auto simp: time_of_def is_refresh_def)
next
  case (Tick now)
  from Tick chrono have lo: "lo \<le> now" and c: "chronological now tr"
    by (simp_all add: time_of_def)
  from Tick gaps have g: "gaps_below (debounce h0) p seen tr" by (simp add: is_refresh_def)
  from Tick follows have "list_ex (is_refresh p) tr" by (simp add: is_tick_def)
  from next_refresh_close [OF c g this] le have q: "now - ts < debounce h0" by simp
  obtain r h2 w2 where pp: "process_pending h0 w0 now = (r, h2, w2)"
    by (cases "process_pending h0 w0 now")
  with Tick st have "h1 = h2" "w1 = w2" by simp_all
  with unstabilized_kept [OF dist entry pp q] le lo c g show ?thesis
    by (intro exI [of _ ts] exI [of _ seen] exI [of _ now]) auto
next
  case (Created ev t)
  from Created chrono have lo: "lo \<le> t" and c: "chronological t tr"
    by (simp_all add: time_of_def)
  from Created gaps have g: "gaps_below (debounce h0) p seen tr" by (simp add: is_refresh_def)
  from Created st have h1: "h1 = on_created h0 ev t" and w1: "moved w1 = moved w0 @ []" by auto
  show ?thesis
  proof (cases "accepts h0 ev \<and> src_path ev = p")
    case True
    with dist have "(p, t) \<in> set (pending h1)"
      by (simp add: h1 on_created_pending set_update_same)
    with le lo c g w1 show ?thesis
      by (intro exI [of _ t] exI [of _ seen] exI [of _ t]) auto
  next
    case False
    with entry have "(p, ts) \<in> set (pending h1)"
      by (auto simp: h1 on_created_pending set_update_other)
    with le lo c g w1 show ?thesis
      by (intro exI [of _ ts] exI [of _ seen] exI [of _ t]) auto
  qed
next
  case (Modified ev t)
  from Modified chrono have lo: "lo \<le> t" and c: "chronological t tr"
    by (simp_all add: time_of_def)
  from Modified st have h1: "h1 = on_modified h0 ev t" and w1: "moved w1 = moved w0 @ []" by auto
  show ?thesis
  proof (cases "is_refresh p a")
    case True
    with Modified have ev: "\<not> is_directory ev" "src_path ev = p" by (simp_all add: is_refresh_def)
    from True Modified gaps have g: "gaps_below (debounce h0) p t tr"
      by (simp add: time_of_def)
    from entry have "p \<in> fst ` set (pending h0)" by force
    with ev dist have "(p, t) \<in> set (pending h1)"
      by (simp add: h1 on_modified_pending set_update_same)
    with c g w1 show ?thesis
      by (intro exI [of _ t] exI [of _ t] exI [of _ t]) auto
  next
    case False
    with gaps have g: "gaps_below (debounce h0) p seen tr" by simp
    from False Modified have "is_directory ev \<or> src_path ev \<noteq> p" by (simp add: is_refresh_def)
    with entry have "(p, ts) \<in> set (pending h1)"
      by (auto simp: h1 on_modified_pending set_update_other)
    with le lo c g w1 show ?thesis
      by (intro exI [of _ ts] exI [of _ seen] exI [of _ t]) auto
  qed
qed

lemma refreshed_run:
  assumes "run (h0, w0) tr = (h, w)"
      and "distinct (map fst (pending h0))"
      and "(p, ts) \<in> set (pending h0)" and "seen \<le> ts" and "seen \<le> lo"
      and "chronological lo tr" and "gaps_below (debounce h0) p seen tr"
      and "refresh_follows p tr"
  shows "p \<in> fst ` set (pending h) \<and> (\<exists>ms. moved w = moved w0 @ ms \<and> p \<notin> fst ` set ms)"
  using assms
proof (induction tr arbitrary: h0 w0 ts seen lo)
  case Nil
  then have "h = h0" "moved w = moved w0 @ []" by (simp_all add: run_def)
  with Nil.prems(3) show ?case by force
next
  case (Cons a tr)
  obtain h1 w1 where st: "step (h0, w0) a = (h1, w1)" by (cases "step (h0, w0) a")
  with Cons.prems(1) have r1: "run (h1, w1) tr = (h, w)" by (simp add: run_def)
  from step_fields [OF st] have deb: "debounce h1 = debounce h0" by simp
  from step_distinct [OF st Cons.prems(2)] have d1: "distinct (map fst (pending h1))" .
  from Cons.prems(8) have f1: "refresh_follows p tr" by simp
  from refreshed_step [OF st Cons.prems(2-8)] obtain ts' seen' lo' ms1 where
    n: "(p, ts') \<in> set (pending h1)" "seen' \<le> ts'" "seen' \<le> lo'" "chronological lo' tr"
       "gaps_below (debounce h0) p seen' tr"
    and m1: "moved w1 = moved w0 @ ms1" "p \<notin> fst ` set ms1"
    by blast
  from Cons.IH [OF r1 d1 n(1-4) _ f1] n(5) deb obtain ms2 where
    k: "p \<in> fst ` set (pending h)" and m2: "moved w = moved w1 @ ms2" "p \<notin> fst ` set ms2"
    by auto
  from m1 m2 have "moved w = moved w0 @ (ms1 @ ms2)" "p \<notin> fst ` set (ms1 @ ms2)" by auto
  with k show ?case by blast
qed

text \<open>
  Claim C6. Let a path be pending with timestamp \<open>seen\<close>, and let a run of events,
  ticks and file-system changes follow in which the clock never goes back, consecutive
  refreshes of the path are less than the debounce window apart, and every tick has a
  later refresh. Then the path is still pending after the run and no tick of the run
  has moved it.
\<close>

theorem refreshed_file_not_moved:
  assumes dist: "distinct (map fst (pending h0))"
      and entry: "(path, seen) \<in> set (pending h0)"
      and chrono: "chronological seen tr"
      and gaps: "gaps_below (debounce h0) path seen tr"
      and follows: "refresh_follows path tr"
      and reach: "run (h0, w0) tr = (h, w)"
  shows "path \<in> fst ` set (pending h)
         \<and> (\<exists>ms. moved w = moved w0 @ ms \<and> path \<notin> fst ` set ms)"
  using refreshed_run [OF reach dist entry order_refl order_refl chrono gaps follows] .

theorem refreshed_file_not_moved_witness:
  "distinct (map fst (pending ex_refresh_handler))
   \<and> ([''D'', ''a.txt''], 0) \<in> set (pending ex_refresh_handler)
   \<and> chronological 0 ex_refresh_trace
   \<and> gaps_below (debounce ex_refresh_handler) [''D'', ''a.txt''] 0 ex_refresh_trace
   \<and> refresh_follows [''D'', ''a.txt''] ex_refresh_trace
   \<and> debounce ex_refresh_handler \<le> 5 / 2 - 0
   \<and> [''D'', ''a.txt''] \<in> fst ` set (pending (fst (run (ex_refresh_handler, ex_world) ex_refresh_trace)))
   \<and> (\<exists>ms. moved (snd (run (ex_refresh_handler, ex_world) ex_refresh_trace)) = moved ex_world @ ms
          \<and> [''D'', ''a.txt''] \<notin> fst ` set ms)"
proof -
  obtain h w where reach: "run (ex_refresh_handler, ex_world) ex_refresh_trace = (h, w)"
    by (cases "run (ex_refresh_handler, ex_world) ex_refresh_trace")
  have dist: "distinct (map fst (pending ex_refresh_handler))"
    and entry: "([''D'', ''a.txt''], 0) \<in> set (pending ex_refresh_handler)"
    and deb: "debounce ex_refresh_handler \<le> 5 / 2 - 0"
    by (simp_all add: ex_refresh_handler_def ex_handler_def)
  have chrono: "chronological 0 ex_refresh_trace"
    by (simp add: ex_refresh_trace_def time_of_def)
  have gaps: "gaps_below (debounce ex_refresh_handler) [''D'', ''a.txt''] 0 ex_refresh_trace"
    by (simp add: ex_refresh_trace_def ex_refresh_handler_def ex_handler_def time_of_def
          is_refresh_def ex_file_event_def)
  have follows: "refresh_follows [''D'', ''a.txt''] ex_refresh_trace"
    by (simp add: ex_refresh_trace_def is_tick_def is_refresh_def ex_file_event_def)
  from refreshed_file_not_moved [OF dist entry chrono gaps follows reach]
    dist entry chrono gaps follows deb reach
  show ?thesis by simp
qed

section \<open>The one-shot sweep\<close>

lemma sweep_skip:
  "\<not> eligible (disk w) p \<Longrightarrow>
     reorganize_loop em (p # rest) b w count = reorganize_loop em rest b w count"
  by (simp add: eligible_def)

lemma sweep_step:
  assumes el: "eligible (disk w) p"
      and src: "lookup (disk w) p = Some (File c)"
      and nofile: "\<forall>c'. lookup (disk w) (boop_watch_folder b @ [category_of em p]) \<noteq> Some (File c')"
      and par: "lookup (disk w) (boop_watch_folder b) = Some Dir"
  shows "\<exists>f2. reorganize_loop em (p # rest) b w count =
           reorganize_loop em rest
             (b\<lparr>last_file := Some (destination em (boop_watch_folder b) (disk w) p)\<rparr>)
             \<lparr>disk = f2,
              moved = moved w @ [(p, destination em (boop_watch_folder b) (disk w) p)],
              notified = (if boop_on_file_moved b
                          then notified w @ [(destination em (boop_watch_folder b) (disk w) p,
                                              category_of em p)]
                          else notified w)\<rparr>
             (count + 1)
         \<and> lookup f2 = (lookup (disk w))
              (boop_watch_folder b @ [category_of em p] \<mapsto> Dir, p := None,
               destination em (boop_watch_folder b) (disk w) p \<mapsto> File c)"
proof -
  let ?d = "boop_watch_folder b @ [category_of em p]"
  let ?e = "lower (suffix_of p)"
  from par have par': "lookup (disk w) ?d = None \<longrightarrow> lookup (disk w) (parent ?d) = Some Dir"
    by (simp add: parent_def)
  from pipeline_file [OF src nofile par', of ?e] obtain f1 f2 where
    "mkdir_exist_ok (disk w) ?d = Inr f1" "resolve f1 ?d p ?e = resolve (disk w) ?d p ?e"
    "shutil_move f1 p (resolve (disk w) ?d p ?e) = Inr f2"
    "lookup f2 = (lookup (disk w))(?d \<mapsto> Dir, p := None, resolve (disk w) ?d p ?e \<mapsto> File c)"
    by blast
  with el show ?thesis
    by (intro exI [of _ f2])
       (simp add: eligible_def Let_def destination_def category_of_def [symmetric])
qed

lemma eligible_file:
  "eligible f p \<Longrightarrow> exists f p \<Longrightarrow> \<exists>c. lookup f p = Some (File c)"
  by (cases "lookup f p"; cases "the (lookup f p)") (auto simp: eligible_def is_dir_def exists_def)


declare reorganize_loop.simps(2) [simp del]

lemma probed_names_cong:
  "(\<And>c x. occ (W @ [c, x]) = occ' (W @ [c, x])) \<Longrightarrow>
     probed_names em W occ ms = probed_names em W occ' ms"
proof (induction ms arbitrary: occ occ')
  case Nil
  show ?case by simp
next
  case (Cons a ms)
  obtain s d where a: "a = (s, d)" by (cases a)
  have "probed_names em W (\<lambda>q. occ q \<or> q = d) ms
          = probed_names em W (\<lambda>q. occ' q \<or> q = d) ms"
    by (rule Cons.IH) (simp add: Cons.prems)
  then show ?case unfolding a by (simp add: Cons.prems)
qed

lemma sweep_loop:
  assumes wf: "boop_watch_folder b = W" and cbk: "boop_on_file_moved b = cb"
      and J1: "lookup (disk w) W = Some Dir"
      and J2: "distinct entries"
      and J3: "\<forall>p\<in>set entries. parent p = W \<and> exists (disk w) p"
      and J4: "\<forall>p\<in>set entries. eligible (disk w) p \<longrightarrow>
                 (\<forall>c. lookup (disk w) (W @ [category_of em p]) \<noteq> Some (File c))"
      and J5: "\<forall>g\<in>G. lookup (disk w) g = None \<and> parent g = W
                 \<and> (\<forall>p\<in>set entries. eligible (disk w) p \<longrightarrow> g \<noteq> W @ [category_of em p])"
  shows "\<exists>b' w' ms.
           reorganize_loop em entries b w count
             = (Inr (count + length (filter (eligible (disk w)) entries)), b', w')
         \<and> moved w' = moved w @ ms
         \<and> map fst ms = filter (eligible (disk w)) entries
         \<and> (\<forall>(s, d)\<in>set ms. parent d = W @ [category_of em s]
                \<and> lookup (disk w') d = lookup (disk w) s)
         \<and> notified w' = notified w @ (if cb then map (\<lambda>(s, d). (d, category_of em s)) ms else [])
         \<and> (\<forall>q. exists (disk w) q \<and> q \<notin> set (filter (eligible (disk w)) entries)
                \<longrightarrow> lookup (disk w') q = lookup (disk w) q)
         \<and> (\<forall>g\<in>G. lookup (disk w') g = None)
         \<and> (\<forall>p\<in>set entries. eligible (disk w) p \<longrightarrow> lookup (disk w') p = None)
         \<and> probed_names em W (exists (disk w)) ms"
  using assms
proof (induction entries arbitrary: b w count G)
  case Nil
  show ?case
    using Nil.prems(7)
    by (intro exI [of _ b] exI [of _ w] exI [of _ "[]"]) simp
next
  case (Cons p rest)
  note wf = Cons.prems(1) and cbk = Cons.prems(2) and J1 = Cons.prems(3) and J2 = Cons.prems(4)
    and J3 = Cons.prems(5) and J4 = Cons.prems(6) and J5 = Cons.prems(7)
  show ?case
  proof (cases "eligible (disk w) p")
    case False
    from J2 have d: "distinct rest" by simp
    from J3 have j3: "\<forall>p\<in>set rest. parent p = W \<and> exists (disk w) p" by simp
    from J4 have j4: "\<forall>p\<in>set rest. eligible (disk w) p \<longrightarrow>
                 (\<forall>c. lookup (disk w) (W @ [category_of em p]) \<noteq> Some (File c))" by simp
    from J5 have j5: "\<forall>g\<in>G. lookup (disk w) g = None \<and> parent g = W
                 \<and> (\<forall>p\<in>set rest. eligible (disk w) p \<longrightarrow> g \<noteq> W @ [category_of em p])" by simp
    from Cons.IH [OF wf cbk J1 d j3 j4 j5, of count] False show ?thesis
      by (simp add: sweep_skip [OF False])
  next
    case True
    let ?L = "lookup (disk w)"
    let ?dd = "W @ [category_of em p]"
    let ?d = "destination em W (disk w) p"
    from J3 have pp: "parent p = W" and pe: "exists (disk w) p" by simp_all
    from eligible_file [OF True pe] obtain c where src: "?L p = Some (File c)" by blast
    from J4 True have nofile: "\<forall>c'. ?L (boop_watch_folder b @ [category_of em p]) \<noteq> Some (File c')"
      by (simp add: wf)
    from J1 have par: "?L (boop_watch_folder b) = Some Dir" by (simp add: wf)
    from sweep_step [OF True src nofile par, of rest count] obtain f2 where
      eq: "reorganize_loop em (p # rest) b w count =
             reorganize_loop em rest (b\<lparr>last_file := Some ?d\<rparr>)
               \<lparr>disk = f2, moved = moved w @ [(p, ?d)],
                notified = (if cb then notified w @ [(?d, category_of em p)] else notified w)\<rparr>
               (count + 1)"
      and l2: "lookup f2 = ?L(?dd \<mapsto> Dir, p := None, ?d \<mapsto> File c)"
      unfolding wf cbk by blast
    let ?b1 = "b\<lparr>last_file := Some ?d\<rparr>"
    let ?w1 = "\<lparr>disk = f2, moved = moved w @ [(p, ?d)],
                notified = (if cb then notified w @ [(?d, category_of em p)] else notified w)\<rparr>"
    have dfree: "?L ?d = None" using resolve_free [of "disk w" ?dd p "lower (suffix_of p)"]
      by (simp add: destination_def exists_def)
    have pd: "parent ?d = ?dd" by (simp add: destination_def resolve_parent)
    have pdd: "parent ?dd = W" by (simp add: parent_def)
    from src dfree have dp: "?d \<noteq> p" by auto
    have nd: "g \<noteq> ?d" if "parent g = W" for g using that pd by auto
    have frame1: "lookup f2 q = ?L q" if "exists (disk w) q" "q \<noteq> p" for q
    proof -
      from that(1) dfree have "q \<noteq> ?d" by (auto simp: exists_def)
      moreover have "?L ?dd = Some Dir" if "q = ?dd"
      proof -
        from \<open>exists (disk w) q\<close> that obtain n where n: "?L ?dd = Some n"
          by (auto simp: exists_def)
        with J4 True show ?thesis by (cases n) auto
      qed
      ultimately show ?thesis using that(2) by (auto simp: l2)
    qed
    have restp: "q \<noteq> p \<and> exists (disk w) q \<and> parent q = W" if "q \<in> set rest" for q
      using that J2 J3 by auto
    have rest1: "lookup f2 q = ?L q" if "q \<in> set rest" for q
      using restp [OF that] frame1 by blast
    have el1: "eligible f2 q = eligible (disk w) q" if "q \<in> set rest" for q
      using rest1 [OF that] by (simp add: eligible_def is_dir_def)
    have filt: "filter (eligible f2) rest = filter (eligible (disk w)) rest"
      by (rule filter_cong) (simp_all add: el1)
    have notp: "p \<noteq> W @ [category_of em q]" if "q \<in> set rest" "eligible (disk w) q" for q
      using J4 that src by auto
    have Wp: "W \<noteq> p" using J1 src by auto
    have j1: "lookup (disk ?w1) W = Some Dir"
      using frame1 [of W] J1 Wp by (simp add: exists_def)
    from J2 have j2: "distinct rest" by simp
    have j3: "\<forall>q\<in>set rest. parent q = W \<and> exists (disk ?w1) q"
      using restp rest1 by (simp add: exists_def)
    have j4: "\<forall>q\<in>set rest. eligible (disk ?w1) q \<longrightarrow>
                 (\<forall>c'. lookup (disk ?w1) (W @ [category_of em q]) \<noteq> Some (File c'))"
    proof (intro ballI impI allI)
      fix q c' assume q: "q \<in> set rest" and e: "eligible (disk ?w1) q"
      from e q have e0: "eligible (disk w) q" by (simp add: el1)
      with J4 q have a: "?L (W @ [category_of em q]) \<noteq> Some (File c')" by simp
      have b: "W @ [category_of em q] \<noteq> ?d"
        by (rule nd) (simp add: parent_def)
      from notp [OF q e0] have c: "W @ [category_of em q] \<noteq> p" by simp
      from a b c show "lookup (disk ?w1) (W @ [category_of em q]) \<noteq> Some (File c')"
        by (simp add: l2)
    qed
    have j5: "\<forall>g\<in>G \<union> {p}. lookup (disk ?w1) g = None \<and> parent g = W
                 \<and> (\<forall>q\<in>set rest. eligible (disk ?w1) q \<longrightarrow> g \<noteq> W @ [category_of em q])"
    proof (intro ballI conjI impI)
      fix g assume g: "g \<in> G \<union> {p}"
      show "parent g = W" using g J5 pp by auto
      then have gd: "g \<noteq> ?d" by (rule nd)
      show "lookup (disk ?w1) g = None"
      proof (cases "g = p")
        case True
        with dp show ?thesis by (simp add: l2)
      next
        case False
        with g have gG: "g \<in> G" by simp
        with J5 \<open>eligible (disk w) p\<close> have "?L g = None" "g \<noteq> ?dd" by auto
        with gd False show ?thesis by (simp add: l2)
      qed
    next
      fix g q assume g: "g \<in> G \<union> {p}" and q: "q \<in> set rest" and e: "eligible (disk ?w1) q"
      from e q have e0: "eligible (disk w) q" by (simp add: el1)
      show "g \<noteq> W @ [category_of em q]"
      proof (cases "g = p")
        case True
        with notp [OF q e0] show ?thesis by simp
      next
        case False
        with g J5 q e0 show ?thesis by auto
      qed
    qed
    have wf1: "boop_watch_folder ?b1 = W" and cb1: "boop_on_file_moved ?b1 = cb"
      by (simp_all add: wf cbk)
    from Cons.IH [OF wf1 cb1 j1 j2 j3 j4 j5, of "count + 1"] obtain b' w' ms where
      r: "reorganize_loop em rest ?b1 ?w1 (count + 1)
            = (Inr (count + 1 + length (filter (eligible (disk ?w1)) rest)), b', w')"
      and m: "moved w' = moved ?w1 @ ms"
      and mf: "map fst ms = filter (eligible (disk ?w1)) rest"
      and land: "\<forall>(s, d)\<in>set ms. parent d = W @ [category_of em s]
                   \<and> lookup (disk w') d = lookup (disk ?w1) s"
      and nt: "notified w' = notified ?w1 @ (if cb then map (\<lambda>(s, d). (d, category_of em s)) ms else [])"
      and fr: "\<forall>q. exists (disk ?w1) q \<and> q \<notin> set (filter (eligible (disk ?w1)) rest)
                   \<longrightarrow> lookup (disk w') q = lookup (disk ?w1) q"
      and gone: "\<forall>g\<in>G \<union> {p}. lookup (disk w') g = None"
      and srcs: "\<forall>q\<in>set rest. eligible (disk ?w1) q \<longrightarrow> lookup (disk w') q = None"
      and pn: "probed_names em W (exists (disk ?w1)) ms"
      by blast
    let ?ms = "(p, ?d) # ms"
    have c1: "reorganize_loop em (p # rest) b w count
               = (Inr (count + length (filter (eligible (disk w)) (p # rest))), b', w')"
      using eq r True filt by simp
    have c2: "moved w' = moved w @ ?ms" using m by simp
    have c3: "map fst ?ms = filter (eligible (disk w)) (p # rest)"
      using mf True filt by simp
    have drest: "?d \<notin> set rest"
    proof
      assume "?d \<in> set rest"
      with restp have "parent ?d = W" by blast
      with pd show False by simp
    qed
    have c4: "\<forall>(s, d)\<in>set ?ms. parent d = W @ [category_of em s]
                \<and> lookup (disk w') d = lookup (disk w) s"
    proof (intro ballI)
      fix x assume x: "x \<in> set ?ms"
      obtain s d where sd: "x = (s, d)" by (cases x)
      show "case x of (s, d) \<Rightarrow> parent d = W @ [category_of em s]
                \<and> lookup (disk w') d = lookup (disk w) s"
      proof (cases "x = (p, ?d)")
        case True
        have "exists (disk ?w1) ?d" by (simp add: exists_def l2)
        moreover have "?d \<notin> set (filter (eligible (disk ?w1)) rest)" using drest by simp
        ultimately have "lookup (disk w') ?d = lookup (disk ?w1) ?d" using fr by blast
        with True pd src show ?thesis by (simp add: l2)
      next
        case False
        with x sd have in_ms: "(s, d) \<in> set ms" by auto
        with land have a: "parent d = W @ [category_of em s]"
          and b: "lookup (disk w') d = lookup (disk ?w1) s" by auto
        from in_ms have "s \<in> set (map fst ms)" by force
        with mf have "s \<in> set rest" by simp
        from rest1 [OF this] a b sd show ?thesis by simp
      qed
    qed
    have c5: "notified w' = notified w @ (if cb then map (\<lambda>(s, d). (d, category_of em s)) ?ms else [])"
      using nt by simp
    have c6: "\<forall>q. exists (disk w) q \<and> q \<notin> set (filter (eligible (disk w)) (p # rest))
                \<longrightarrow> lookup (disk w') q = lookup (disk w) q"
    proof (intro allI impI)
      fix q assume q: "exists (disk w) q \<and> q \<notin> set (filter (eligible (disk w)) (p # rest))"
      with True have qp: "q \<noteq> p" and qr: "q \<notin> set (filter (eligible (disk w)) rest)" by auto
      from frame1 [of q] q qp have f1: "lookup f2 q = ?L q" by simp
      with q have "exists (disk ?w1) q" by (simp add: exists_def)
      with fr qr filt have "lookup (disk w') q = lookup (disk ?w1) q" by simp
      with f1 show "lookup (disk w') q = ?L q" by simp
    qed
    have c7: "\<forall>g\<in>G. lookup (disk w') g = None" using gone by simp
    have c8: "\<forall>q\<in>set (p # rest). eligible (disk w) q \<longrightarrow> lookup (disk w') q = None"
      using gone srcs el1 by auto
    have occ1: "exists (disk ?w1) (W @ [c', x]) = (exists (disk w) (W @ [c', x]) \<or> W @ [c', x] = ?d)"
      for c' x
    proof -
      have "W @ [c', x] \<noteq> p"
      proof
        assume "W @ [c', x] = p"
        then have "parent p = W @ [c']" by (auto simp: parent_def butlast_append)
        with pp show False by simp
      qed
      then show ?thesis by (auto simp: exists_def l2)
    qed
    have tl: "probed_names em W (\<lambda>q. exists (disk w) q \<or> q = ?d) ms"
      using pn probed_names_cong [of "exists (disk ?w1)" W "\<lambda>q. exists (disk w) q \<or> q = ?d" em ms]
        occ1 by blast
    let ?k = "first_free (disk w) ?dd (stem_of p) (lower (suffix_of p)) 1"
    have hd: "if exists (disk w) (W @ [category_of em p, name p])
              then (\<exists>k\<ge>1.
                      ?d = W @ [category_of em p, stem_of p @ ''_'' @ str_nat k @ lower (suffix_of p)]
                      \<and> \<not> exists (disk w) (W @ [category_of em p,
                               stem_of p @ ''_'' @ str_nat k @ lower (suffix_of p)])
                      \<and> (\<forall>j. 1 \<le> j \<and> j < k \<longrightarrow>
                            exists (disk w) (W @ [category_of em p,
                               stem_of p @ ''_'' @ str_nat j @ lower (suffix_of p)])))
              else ?d = W @ [category_of em p, name p]"
    proof (cases "exists (disk w) (W @ [category_of em p, name p])")
      case False
      then show ?thesis by (simp add: destination_def resolve_eq)
    next
      case True
      then have e: "?d = candidate ?dd (stem_of p) (lower (suffix_of p)) ?k"
        by (simp add: destination_def resolve_eq)
      from first_free_props [of 1 "disk w" ?dd "stem_of p" "lower (suffix_of p)"]
      have k1: "1 \<le> ?k"
        and kf: "\<not> exists (disk w) (candidate ?dd (stem_of p) (lower (suffix_of p)) ?k)"
        by simp_all
      have ko: "\<forall>j. 1 \<le> j \<and> j < ?k \<longrightarrow>
                  exists (disk w) (candidate ?dd (stem_of p) (lower (suffix_of p)) j)"
        using first_free_occupied by blast
      from True e k1 kf ko show ?thesis
        by (simp add: candidate_def) (intro exI [of _ ?k], simp)
    qed
    have c9: "probed_names em W (exists (disk w)) ?ms" using hd tl by simp
    from c1 c2 c3 c4 c5 c6 c7 c8 c9 show ?thesis
      by (intro exI [of _ b'] exI [of _ w'] exI [of _ ?ms]) blast
  qed
qed


lemma listdir_entries:
  "p \<in> set (listdir f folder) \<Longrightarrow> parent p = folder \<and> exists f p"
  by (auto simp: listdir_def exists_def lookup_def map_of_eq_None_iff)

text \<open>
  Claim C7, as the code has it. Let the watch folder be a directory, \<open>entries\<close> its
  listing in any order, and let no eligible entry have the name of its category folder
  taken by a regular file. Then \<open>reorganize_all\<close> returns the number \<open>N\<close> of eligible
  entries; it has moved exactly these, in the order of the listing, each into the
  folder of its category with its content; it has called the callback once per moved
  file when one is registered; every other path that existed, so every directory and
  hidden entry, is as it was; and the moved files are gone from the watch folder.
\<close>

theorem reorganize_all_counts:
  assumes watch: "lookup (disk w) (boop_watch_folder b) = Some Dir"
      and listing: "distinct entries \<and> set entries = set (listdir (disk w) (boop_watch_folder b))"
      and free: "\<forall>p\<in>set entries. eligible (disk w) p \<longrightarrow>
                  (\<forall>c. lookup (disk w)
                         (boop_watch_folder b @ [category_of (build_extension_map (categories b)) p])
                       \<noteq> Some (File c))"
  shows "\<exists>b' w' ms.
           reorganize_all b w entries = (Inr (length (filter (eligible (disk w)) entries)), b', w')
         \<and> moved w' = moved w @ ms
         \<and> map fst ms = filter (eligible (disk w)) entries
         \<and> (\<forall>(s, d)\<in>set ms.
               parent d = boop_watch_folder b @ [category_of (build_extension_map (categories b)) s]
               \<and> lookup (disk w') d = lookup (disk w) s)
         \<and> notified w' = notified w @
               (if boop_on_file_moved b
                then map (\<lambda>(s, d). (d, category_of (build_extension_map (categories b)) s)) ms
                else [])
         \<and> (\<forall>q. exists (disk w) q \<and> q \<notin> set (filter (eligible (disk w)) entries)
               \<longrightarrow> lookup (disk w') q = lookup (disk w) q)
         \<and> (\<forall>p\<in>set entries. eligible (disk w) p \<longrightarrow> lookup (disk w') p = None)"
proof -
  let ?W = "boop_watch_folder b"
  let ?em = "build_extension_map (categories b)"
  from listing have J2: "distinct entries" by simp
  from listing have J3: "\<forall>p\<in>set entries. parent p = ?W \<and> exists (disk w) p"
    using listdir_entries by blast
  have J5: "\<forall>g\<in>{}. lookup (disk w) g = None \<and> parent g = ?W
              \<and> (\<forall>p\<in>set entries. eligible (disk w) p \<longrightarrow> g \<noteq> ?W @ [category_of ?em p])"
    by simp
  from sweep_loop [OF refl refl watch J2 J3 free J5, of 0] obtain b' w' ms where
    "reorganize_loop ?em entries b w 0
       = (Inr (0 + length (filter (eligible (disk w)) entries)), b', w')"
    "moved w' = moved w @ ms"
    "map fst ms = filter (eligible (disk w)) entries"
    "\<forall>(s, d)\<in>set ms. parent d = ?W @ [category_of ?em s]
         \<and> lookup (disk w') d = lookup (disk w) s"
    "notified w' = notified w @
       (if boop_on_file_moved b then map (\<lambda>(s, d). (d, category_of ?em s)) ms else [])"
    "\<forall>q. exists (disk w) q \<and> q \<notin> set (filter (eligible (disk w)) entries)
         \<longrightarrow> lookup (disk w') q = lookup (disk w) q"
    "\<forall>p\<in>set entries. eligible (disk w) p \<longrightarrow> lookup (disk w') p = None"
    by blast
  with watch show ?thesis
    by (intro exI [of _ b'] exI [of _ w'] exI [of _ ms]) (simp add: reorganize_all_def)
qed

theorem reorganize_all_counts_witness:
  "lookup (disk ex_sweep_world) [''D''] = Some Dir
   \<and> listdir (disk ex_sweep_world) [''D'']
       = [[''D'', ''a.txt''], [''D'', ''photo.jpg''], [''D'', ''.hidden''], [''D'', ''Images'']]
   \<and> filter (eligible (disk ex_sweep_world)) (listdir (disk ex_sweep_world) [''D''])
       = [[''D'', ''a.txt''], [''D'', ''photo.jpg'']]
   \<and> fst (reorganize_all ex_boop ex_sweep_world (listdir (disk ex_sweep_world) [''D''])) = Inr 2
   \<and> length (notified (snd (snd (reorganize_all ex_boop ex_sweep_world
                (listdir (disk ex_sweep_world) [''D''])))))
       = 2
   \<and> lookup (disk (snd (snd (reorganize_all ex_boop ex_sweep_world
                (listdir (disk ex_sweep_world) [''D''])))))
        [''D'', ''.hidden'']
       = Some (File ''h'')
   \<and> lookup (disk (snd (snd (reorganize_all ex_boop ex_sweep_world
                (listdir (disk ex_sweep_world) [''D''])))))
        [''D'', ''Images'']
       = Some Dir"
proof -
  let ?es = "listdir (disk ex_sweep_world) [''D'']"
  have wf: "boop_watch_folder ex_boop = [''D'']" and cb: "boop_on_file_moved ex_boop"
    by (simp_all add: ex_boop_def)
  have ls: "?es = [[''D'', ''a.txt''], [''D'', ''photo.jpg''], [''D'', ''.hidden''], [''D'', ''Images'']]"
    by (simp add: listdir_def ex_sweep_world_def eval_defs)
  have fl: "filter (eligible (disk ex_sweep_world)) ?es = [[''D'', ''a.txt''], [''D'', ''photo.jpg'']]"
    unfolding ls by (simp add: eligible_def ex_sweep_world_def eval_defs)
  have watch: "lookup (disk ex_sweep_world) (boop_watch_folder ex_boop) = Some Dir"
    by (simp add: wf ex_sweep_world_def eval_defs)
  have listing: "distinct ?es \<and> set ?es = set (listdir (disk ex_sweep_world) (boop_watch_folder ex_boop))"
    unfolding wf by (simp add: ls)
  have free: "\<forall>p\<in>set ?es. eligible (disk ex_sweep_world) p \<longrightarrow>
                  (\<forall>c. lookup (disk ex_sweep_world)
                         (boop_watch_folder ex_boop @ [category_of (build_extension_map (categories ex_boop)) p])
                       \<noteq> Some (File c))"
    unfolding ls wf by (simp add: eligible_def ex_sweep_world_def ex_boop_def eval_defs)
  have hid: "exists (disk ex_sweep_world) [''D'', ''.hidden'']"
       "lookup (disk ex_sweep_world) [''D'', ''.hidden''] = Some (File ''h'')"
       "exists (disk ex_sweep_world) [''D'', ''Images'']"
       "lookup (disk ex_sweep_world) [''D'', ''Images''] = Some Dir"
    by (simp_all add: ex_sweep_world_def eval_defs)
  have nt: "notified ex_sweep_world = []" by (simp add: ex_sweep_world_def)
  from reorganize_all_counts [OF watch listing free] obtain b' w' ms where
    r: "reorganize_all ex_boop ex_sweep_world ?es
          = (Inr (length (filter (eligible (disk ex_sweep_world)) ?es)), b', w')"
    and mf: "map fst ms = filter (eligible (disk ex_sweep_world)) ?es"
    and n: "notified w' = notified ex_sweep_world @
               (if boop_on_file_moved ex_boop
                then map (\<lambda>(s, d). (d, category_of (build_extension_map (categories ex_boop)) s)) ms
                else [])"
    and fr: "\<forall>q. exists (disk ex_sweep_world) q
                  \<and> q \<notin> set (filter (eligible (disk ex_sweep_world)) ?es)
               \<longrightarrow> lookup (disk w') q = lookup (disk ex_sweep_world) q"
    by blast
  from mf have "length ms = length (filter (eligible (disk ex_sweep_world)) ?es)"
    by (metis length_map)
  with n cb nt have n2: "length (notified w') = 2" by (simp add: fl)
  from fr hid have h1: "lookup (disk w') [''D'', ''.hidden''] = Some (File ''h'')"
    and h2: "lookup (disk w') [''D'', ''Images''] = Some Dir"
    by (simp_all add: fl)
  from r have c: "fst (reorganize_all ex_boop ex_sweep_world ?es) = Inr 2"
    and s: "snd (snd (reorganize_all ex_boop ex_sweep_world ?es)) = w'"
    by (simp_all add: fl)
  from watch ls fl c n2 h1 h2 show ?thesis unfolding s wf by blast
qed

text \<open>
  With an eligible file named \<open>Other\<close> in the watch folder, \<open>mkdir\<close> raises for the
  first entry in either order of the listing: the sweep returns no count and moves
  nothing, though two files are eligible.
\<close>

theorem reorganize_all_raises_counterexample:
  "lookup (disk ex_blocked_world) [''D''] = Some Dir
   \<and> listdir (disk ex_blocked_world) [''D''] = [[''D'', ''Other''], [''D'', ''b.txt'']]
   \<and> filter (eligible (disk ex_blocked_world)) [[''D'', ''Other''], [''D'', ''b.txt'']]
       = [[''D'', ''Other''], [''D'', ''b.txt'']]
   \<and> reorganize_all ex_boop ex_blocked_world [[''D'', ''Other''], [''D'', ''b.txt'']]
       = (Inl FileExistsError, ex_boop, ex_blocked_world)
   \<and> reorganize_all ex_boop ex_blocked_world [[''D'', ''b.txt''], [''D'', ''Other'']]
       = (Inl FileExistsError, ex_boop, ex_blocked_world)"
  by (simp add: reorganize_all_def reorganize_loop.simps listdir_def eligible_def
        mkdir_exist_ok_def ex_boop_def ex_blocked_world_def Let_def eval_defs)

section \<open>Names chosen on a collision\<close>

text \<open>
  Claim C10. At both places that handle duplicates, \<open>move_file\<close> and
  \<open>reorganize_all\<close>, a file whose initial destination is free keeps its base name
  exactly, and a file whose initial destination is occupied is stored under
  \<open>stem_k + lowercase(ext)\<close> for the first free \<open>k \<ge> 1\<close>, every probed name having that
  shape: an upper-case extension comes out lower-cased, and a name without extension
  gives \<open>stem_k\<close> with no trailing dot. For \<open>move_file\<close> this is stated for a regular
  file whose category folder exists or can be created; for the sweep, under the
  conditions that make it complete, for every file it moves, the destinations of the
  earlier moves of the sweep counting as occupied.
\<close>

theorem collision_name_lowercases_extension:
  "(lookup (disk w) path = Some (File c)
      \<and> cat = category_of (ext_map h) path
      \<and> (\<forall>c'. lookup (disk w) (watch_folder h @ [cat]) \<noteq> Some (File c'))
      \<and> (lookup (disk w) (watch_folder h @ [cat]) = None
            \<longrightarrow> lookup (disk w) (watch_folder h) = Some Dir)
    \<longrightarrow> (\<exists>w' d. move_file h w path = (Inr None, w')
           \<and> moved w' = moved w @ [(path, d)]
           \<and> lookup (disk w') d = Some (File c)
           \<and> (if exists (disk w) (watch_folder h @ [cat, name path])
              then \<exists>k\<ge>1.
                     d = watch_folder h @ [cat, stem_of path @ ''_'' @ str_nat k @ lower (suffix_of path)]
                     \<and> (suffix_of path = [] \<longrightarrow>
                          d = watch_folder h @ [cat, stem_of path @ ''_'' @ str_nat k])
                     \<and> (\<forall>j. 1 \<le> j \<and> j < k \<longrightarrow>
                           exists (disk w) (watch_folder h @
                             [cat, stem_of path @ ''_'' @ str_nat j @ lower (suffix_of path)]))
              else d = watch_folder h @ [cat, name path])))
   \<and> (lookup (disk v) (boop_watch_folder b) = Some Dir
      \<and> distinct entries
      \<and> set entries = set (listdir (disk v) (boop_watch_folder b))
      \<and> (\<forall>p\<in>set entries. eligible (disk v) p \<longrightarrow>
            (\<forall>c'. lookup (disk v)
                    (boop_watch_folder b @ [category_of (build_extension_map (categories b)) p])
                  \<noteq> Some (File c')))
    \<longrightarrow> (\<exists>b' v' ms. reorganize_all b v entries = (Inr (length ms), b', v')
           \<and> moved v' = moved v @ ms
           \<and> map fst ms = filter (eligible (disk v)) entries
           \<and> probed_names (build_extension_map (categories b)) (boop_watch_folder b)
                (exists (disk v)) ms))"
proof (intro conjI impI)
  assume "lookup (disk w) path = Some (File c)
      \<and> cat = category_of (ext_map h) path
      \<and> (\<forall>c'. lookup (disk w) (watch_folder h @ [cat]) \<noteq> Some (File c'))
      \<and> (lookup (disk w) (watch_folder h @ [cat]) = None
            \<longrightarrow> lookup (disk w) (watch_folder h) = Some Dir)"
  then have src: "lookup (disk w) path = Some (File c)"
    and cat: "cat = category_of (ext_map h) path"
    and nofile: "\<forall>c'. lookup (disk w) (watch_folder h @ [cat]) \<noteq> Some (File c')"
    and par: "lookup (disk w) (watch_folder h @ [cat]) = None
                \<longrightarrow> lookup (disk w) (watch_folder h) = Some Dir"
    by blast+
  from move_file_names [OF src cat nofile par]
  show "\<exists>w' d. move_file h w path = (Inr None, w')
           \<and> moved w' = moved w @ [(path, d)]
           \<and> lookup (disk w') d = Some (File c)
           \<and> (if exists (disk w) (watch_folder h @ [cat, name path])
              then \<exists>k\<ge>1.
                     d = watch_folder h @ [cat, stem_of path @ ''_'' @ str_nat k @ lower (suffix_of path)]
                     \<and> (suffix_of path = [] \<longrightarrow>
                          d = watch_folder h @ [cat, stem_of path @ ''_'' @ str_nat k])
                     \<and> (\<forall>j. 1 \<le> j \<and> j < k \<longrightarrow>
                           exists (disk w) (watch_folder h @
                             [cat, stem_of path @ ''_'' @ str_nat j @ lower (suffix_of path)]))
              else d = watch_folder h @ [cat, name path])" .
next
  let ?W = "boop_watch_folder b"
  let ?em = "build_extension_map (categories b)"
  assume "lookup (disk v) ?W = Some Dir
      \<and> distinct entries
      \<and> set entries = set (listdir (disk v) ?W)
      \<and> (\<forall>p\<in>set entries. eligible (disk v) p \<longrightarrow>
            (\<forall>c'. lookup (disk v) (?W @ [category_of ?em p]) \<noteq> Some (File c')))"
  then have watch: "lookup (disk v) ?W = Some Dir"
    and J2: "distinct entries"
    and listing: "set entries = set (listdir (disk v) ?W)"
    and free: "\<forall>p\<in>set entries. eligible (disk v) p \<longrightarrow>
                 (\<forall>c'. lookup (disk v) (?W @ [category_of ?em p]) \<noteq> Some (File c'))"
    by blast+
  from listing have J3: "\<forall>p\<in>set entries. parent p = ?W \<and> exists (disk v) p"
    using listdir_entries by blast
  have J5: "\<forall>g\<in>{}. lookup (disk v) g = None \<and> parent g = ?W
              \<and> (\<forall>p\<in>set entries. eligible (disk v) p \<longrightarrow> g \<noteq> ?W @ [category_of ?em p])"
    by simp
  from sweep_loop [OF refl refl watch J2 J3 free J5, of 0] obtain b' v' ms where
    r: "reorganize_loop ?em entries b v 0
          = (Inr (0 + length (filter (eligible (disk v)) entries)), b', v')"
    and m: "moved v' = moved v @ ms"
    and mf: "map fst ms = filter (eligible (disk v)) entries"
    and pn: "probed_names ?em ?W (exists (disk v)) ms"
    by blast
  from mf have "length (filter (eligible (disk v)) entries) = length ms"
    by (metis length_map)
  with r watch have "reorganize_all b v entries = (Inr (length ms), b', v')"
    by (simp add: reorganize_all_def)
  with m mf pn
  show "\<exists>b' v' ms. reorganize_all b v entries = (Inr (length ms), b', v')
           \<and> moved v' = moved v @ ms
           \<and> map fst ms = filter (eligible (disk v)) entries
           \<and> probed_names ?em ?W (exists (disk v)) ms"
    by blast
qed

theorem collision_name_lowercases_extension_witness:
  "lookup (disk ex_upper_world) [''D'', ''Report.PDF''] = Some (File ''new'')
   \<and> exists (disk ex_upper_world) [''D'', ''Documents'', ''Report.PDF'']
   \<and> \<not> exists (disk ex_upper_world) [''D'', ''Images'', ''Photo.JPG'']
   \<and> (\<exists>w'. move_file ex_handler ex_upper_world [''D'', ''Report.PDF''] = (Inr None, w')
          \<and> moved w' = [([''D'', ''Report.PDF''], [''D'', ''Documents'', ''Report_1.pdf''])])
   \<and> (\<exists>w'. move_file ex_handler ex_upper_world [''D'', ''Photo.JPG''] = (Inr None, w')
          \<and> moved w' = [([''D'', ''Photo.JPG''], [''D'', ''Images'', ''Photo.JPG''])])
   \<and> listdir (disk ex_upper_world) [''D'']
        = [[''D'', ''Report.PDF''], [''D'', ''Photo.JPG''], [''D'', ''Documents'']]
   \<and> (\<exists>b' v'. reorganize_all ex_boop ex_upper_world (listdir (disk ex_upper_world) [''D''])
                  = (Inr 2, b', v')
          \<and> moved v' = [([''D'', ''Report.PDF''], [''D'', ''Documents'', ''Report_1.pdf'']),
                         ([''D'', ''Photo.JPG''], [''D'', ''Images'', ''Photo.JPG''])])"
proof -
  let ?p = "[''D'', ''Report.PDF'']"
  let ?q = "[''D'', ''Photo.JPG'']"
  let ?es = "listdir (disk ex_upper_world) [''D'']"
  let ?em = "build_extension_map (categories ex_boop)"
  have wf: "watch_folder ex_handler = [''D'']" by (simp add: ex_handler_def)
  have wfb: "boop_watch_folder ex_boop = [''D'']" by (simp add: ex_boop_def)
  have catp: "''Documents'' = category_of (ext_map ex_handler) ?p"
    by (simp add: ex_handler_def eval_defs)
  have catq: "''Images'' = category_of (ext_map ex_handler) ?q"
    by (simp add: ex_handler_def eval_defs)
  have catbp: "category_of ?em ?p = ''Documents''" and catbq: "category_of ?em ?q = ''Images''"
    by (simp_all add: ex_boop_def eval_defs)
  have stp: "stem_of ?p = ''Report''" "lower (suffix_of ?p) = ''.pdf''" "name ?p = ''Report.PDF''"
    by (simp_all add: eval_defs)
  have stq: "name ?q = ''Photo.JPG''" by (simp add: eval_defs)
  have srcp: "lookup (disk ex_upper_world) ?p = Some (File ''new'')"
    by (simp add: ex_upper_world_def eval_defs)
  have srcq: "lookup (disk ex_upper_world) ?q = Some (File ''img'')"
    by (simp add: ex_upper_world_def eval_defs)
  have nfp: "\<forall>c'. lookup (disk ex_upper_world) (watch_folder ex_handler @ [''Documents'']) \<noteq> Some (File c')"
    by (simp add: wf ex_upper_world_def eval_defs)
  have parp: "lookup (disk ex_upper_world) (watch_folder ex_handler @ [''Documents'']) = None
               \<longrightarrow> lookup (disk ex_upper_world) (watch_folder ex_handler) = Some Dir"
    by (simp add: wf ex_upper_world_def eval_defs)
  have nfq: "\<forall>c'. lookup (disk ex_upper_world) (watch_folder ex_handler @ [''Images'']) \<noteq> Some (File c')"
    by (simp add: wf ex_upper_world_def eval_defs)
  have parq: "lookup (disk ex_upper_world) (watch_folder ex_handler @ [''Images'']) = None
               \<longrightarrow> lookup (disk ex_upper_world) (watch_folder ex_handler) = Some Dir"
    by (simp add: wf ex_upper_world_def eval_defs)
  have occp: "exists (disk ex_upper_world) [''D'', ''Documents'', ''Report.PDF'']"
    by (simp add: ex_upper_world_def eval_defs)
  have freeq: "\<not> exists (disk ex_upper_world) [''D'', ''Images'', ''Photo.JPG'']"
    by (simp add: ex_upper_world_def eval_defs)
  have free1: "\<not> exists (disk ex_upper_world) [''D'', ''Documents'', ''Report_1.pdf'']"
    by (simp add: ex_upper_world_def eval_defs)
  have s1: "str_nat 1 = ''1''" "str_nat (Suc 0) = ''1''" by (simp_all add: eval_defs)
  have ex_moved: "moved ex_upper_world = []" by (simp add: ex_upper_world_def)
  have one: "k = 1"
    if k: "1 \<le> k"
      and below: "\<forall>j. 1 \<le> j \<and> j < k \<longrightarrow>
                  exists (disk ex_upper_world) [''D'', ''Documents'', ''Report'' @ ''_'' @ str_nat j @ ''.pdf'']"
    for k
  proof (rule ccontr)
    assume "k \<noteq> 1"
    with k have "1 \<le> (1::nat) \<and> 1 < k" by simp
    with below have "exists (disk ex_upper_world) [''D'', ''Documents'', ''Report'' @ ''_'' @ str_nat 1 @ ''.pdf'']"
      by blast
    with free1 show False by (simp add: s1)
  qed
  note mfile = collision_name_lowercases_extension [THEN conjunct1, rule_format]
  note sweep = collision_name_lowercases_extension [THEN conjunct2, rule_format]
  from mfile [OF conjI [OF srcp conjI [OF catp conjI [OF nfp parp]]]] occp obtain w' k where
    mv: "move_file ex_handler ex_upper_world ?p = (Inr None, w')"
    and k: "1 \<le> k"
    and md: "moved w' = [(?p, [''D'', ''Documents'', ''Report'' @ ''_'' @ str_nat k @ ''.pdf''])]"
    and below: "\<forall>j. 1 \<le> j \<and> j < k \<longrightarrow>
                  exists (disk ex_upper_world) [''D'', ''Documents'', ''Report'' @ ''_'' @ str_nat j @ ''.pdf'']"
    unfolding wf stp ex_moved by auto
  from one [OF k below] md mv
  have first: "\<exists>w'. move_file ex_handler ex_upper_world ?p = (Inr None, w')
          \<and> moved w' = [(?p, [''D'', ''Documents'', ''Report_1.pdf''])]"
    by (simp add: s1)
  from mfile [OF conjI [OF srcq conjI [OF catq conjI [OF nfq parq]]]] freeq
  have second: "\<exists>w'. move_file ex_handler ex_upper_world ?q = (Inr None, w')
          \<and> moved w' = [(?q, [''D'', ''Images'', ''Photo.JPG''])]"
    unfolding wf stq ex_moved by auto
  have ls: "?es = [?p, ?q, [''D'', ''Documents'']]"
    by (simp add: listdir_def ex_upper_world_def eval_defs)
  have fl: "filter (eligible (disk ex_upper_world)) ?es = [?p, ?q]"
    unfolding ls by (simp add: eligible_def ex_upper_world_def eval_defs)
  have watch: "lookup (disk ex_upper_world) (boop_watch_folder ex_boop) = Some Dir"
    by (simp add: wfb ex_upper_world_def eval_defs)
  have dist: "distinct ?es" by (simp add: ls)
  have same: "set ?es = set (listdir (disk ex_upper_world) (boop_watch_folder ex_boop))"
    by (simp add: wfb)
  have free: "\<forall>p\<in>set ?es. eligible (disk ex_upper_world) p \<longrightarrow>
                  (\<forall>c'. lookup (disk ex_upper_world)
                         (boop_watch_folder ex_boop @ [category_of ?em p])
                       \<noteq> Some (File c'))"
    unfolding ls wfb by (simp add: eligible_def ex_upper_world_def ex_boop_def eval_defs)
  from sweep [OF conjI [OF watch conjI [OF dist conjI [OF same free]]]] obtain b' v' ms where
    r: "reorganize_all ex_boop ex_upper_world ?es = (Inr (length ms), b', v')"
    and m: "moved v' = moved ex_upper_world @ ms"
    and mf: "map fst ms = filter (eligible (disk ex_upper_world)) ?es"
    and pn: "probed_names ?em (boop_watch_folder ex_boop) (exists (disk ex_upper_world)) ms"
    by blast
  from mf fl obtain d1 d2 where ms: "ms = [(?p, d1), (?q, d2)]"
    by (auto simp: map_eq_Cons_conv)
  from pn occp obtain k' where
    k': "1 \<le> k'"
    and d1: "d1 = [''D'', ''Documents'', ''Report'' @ ''_'' @ str_nat k' @ ''.pdf'']"
    and below': "\<forall>j. 1 \<le> j \<and> j < k' \<longrightarrow>
                  exists (disk ex_upper_world) [''D'', ''Documents'', ''Report'' @ ''_'' @ str_nat j @ ''.pdf'']"
    and rest: "probed_names ?em [''D''] (\<lambda>q. exists (disk ex_upper_world) q \<or> q = d1) [(?q, d2)]"
    unfolding ms wfb by (auto simp: catbp stp)
  from one [OF k' below'] d1 have d1': "d1 = [''D'', ''Documents'', ''Report_1.pdf'']"
    by (simp add: s1)
  from rest freeq have d2: "d2 = [''D'', ''Images'', ''Photo.JPG'']"
    by (simp add: catbq stq d1')
  from r m have third: "\<exists>b' v'. reorganize_all ex_boop ex_upper_world ?es = (Inr 2, b', v')
          \<and> moved v' = [(?p, [''D'', ''Documents'', ''Report_1.pdf'']),
                         (?q, [''D'', ''Images'', ''Photo.JPG''])]"
    by (simp add: ms d1' d2 ex_moved)
  from srcp occp freeq first second ls third show ?thesis by blast
qed

end
